theory Spec2Isabelle
  imports Main "HOL-Library.Word"
begin

unbundle bit_operations_syntax

section \<open>IPFIX / NetFlow v9 encoder of \<open>layers/ipfix.go\<close>\<close>

text \<open>
  A shallow embedding of the encoder. Go's \<open>uint16\<close> and \<open>uint32\<close> are words, so the
  conversion \<open>uint16(n)\<close> is \<open>of_nat n\<close> and wraps. Go's \<open>int\<close> holds only lengths and
  offsets here; it is modelled by \<open>nat\<close>, without the 64-bit bound, which no sum of
  slice lengths held in memory reaches.

  The structs are records with the fields of the source; the fields \<open>Length\<close> and \<open>ID\<close>,
  which several structs have, are \<open>FieldLength\<close>, \<open>SetLength\<close> and \<open>PktLength\<close>, and
  \<open>TemplateID\<close> and \<open>SetID\<close>. A function that stores into its receiver returns the
  receiver afterwards next to its result. The unused \<open>opts\<close> argument is left out.

  A byte slice \<open>b\<close> is the list of its \<open>len(b)\<close> bytes. The Go code writes in place
  through sub-slices; the model passes the slice in and returns it updated. A slice
  expression or an index outside the length is the run-time panic \<open>RuntimePanic\<close>
  (Go checks \<open>b[lo:hi]\<close> against the capacity, which is never below the length, so a run
  that the model completes is a run of the Go code making the same writes).
\<close>

type_synonym byte = "8 word"
type_synonym uint16 = "16 word"
type_synonym uint32 = "32 word"

datatype error = RuntimePanic | Err string

definition and_then :: "error + 'a \<Rightarrow> ('a \<Rightarrow> error + 'b) \<Rightarrow> error + 'b" where
  "and_then r f = (case r of Inl e \<Rightarrow> Inl e | Inr x \<Rightarrow> f x)"

subsection \<open>Slices and \<open>encoding/binary\<close>\<close>

text \<open>\<open>binary.BigEndian.PutUint16(b, v)\<close>: \<open>_ = b[1]; b[0] = byte(v >> 8); b[1] = byte(v)\<close>.\<close>

definition PutUint16 :: "byte list \<Rightarrow> uint16 \<Rightarrow> error + byte list" where
  "PutUint16 b v =
     (if length b < 2 then Inl RuntimePanic
      else Inr (b[0 := ucast (drop_bit 8 v), 1 := ucast v]))"

text \<open>\<open>binary.BigEndian.PutUint32(b, v)\<close>: \<open>_ = b[3]\<close>, then the four bytes, high first.\<close>

definition PutUint32 :: "byte list \<Rightarrow> uint32 \<Rightarrow> error + byte list" where
  "PutUint32 b v =
     (if length b < 4 then Inl RuntimePanic
      else Inr (b[0 := ucast (drop_bit 24 v), 1 := ucast (drop_bit 16 v),
                  2 := ucast (drop_bit 8 v), 3 := ucast v]))"

text \<open>\<open>binary.BigEndian.Uint16(b)\<close>: \<open>_ = b[1]; return uint16(b[1]) | uint16(b[0])<<8\<close>.\<close>

definition Uint16 :: "byte list \<Rightarrow> error + uint16" where
  "Uint16 b =
     (if length b < 2 then Inl RuntimePanic
      else Inr (ucast (b ! 1) OR push_bit 8 (ucast (b ! 0))))"

text \<open>
  \<open>on_slice b lo hi f\<close> runs \<open>f\<close> on the sub-slice \<open>b[lo:hi]\<close>, which shares its bytes with
  \<open>b\<close>: the bytes \<open>f\<close> leaves there are the bytes of \<open>b\<close> at \<open>lo..hi\<close> afterwards.
  \<open>on_tail b off f\<close> is the same for \<open>b[off:]\<close>.
\<close>

definition on_slice ::
  "byte list \<Rightarrow> nat \<Rightarrow> nat \<Rightarrow> (byte list \<Rightarrow> error + byte list) \<Rightarrow> error + byte list" where
  "on_slice b lo hi f =
     (if lo \<le> hi \<and> hi \<le> length b then
        (case f (take (hi - lo) (drop lo b)) of
           Inl e \<Rightarrow> Inl e
         | Inr s \<Rightarrow> Inr (take lo b @ s @ drop hi b))
      else Inl RuntimePanic)"

definition on_tail ::
  "byte list \<Rightarrow> nat \<Rightarrow> (byte list \<Rightarrow> error + byte list) \<Rightarrow> error + byte list" where
  "on_tail b off f = on_slice b off (length b) f"

text \<open>The builtin \<open>copy(dst, src)\<close> copies \<open>min(len(dst), len(src))\<close> bytes.\<close>

definition copy_bytes :: "byte list \<Rightarrow> byte list \<Rightarrow> byte list" where
  "copy_bytes dst src =
     take (min (length dst) (length src)) src @ drop (min (length dst) (length src)) dst"

subsection \<open>IPFixField\<close>

record IPFixField =
  Name :: string
  Type :: uint16
  FieldLength :: uint16
  EnterpriseNumber :: uint32
  Offset :: uint16

definition IPFixField_IsEnterprise :: "IPFixField \<Rightarrow> bool" where
  "IPFixField_IsEnterprise f = ((Type f AND 0x8000) = 0x8000)"

definition IPFixField_Len :: "IPFixField \<Rightarrow> nat" where
  "IPFixField_Len f = (let n = 4 in if IPFixField_IsEnterprise f then n + 4 else n)"

definition IPFixField_encode :: "IPFixField \<Rightarrow> byte list \<Rightarrow> error + byte list" where
  "IPFixField_encode f b =
     and_then (on_slice b 0 2 (\<lambda>s. PutUint16 s (Type f))) (\<lambda>b.
     and_then (on_slice b 2 4 (\<lambda>s. PutUint16 s (FieldLength f))) (\<lambda>b.
     if IPFixField_IsEnterprise f
     then on_slice b 4 8 (\<lambda>s. PutUint32 s (EnterpriseNumber f))
     else Inr b))"

subsection \<open>IPFixTemplate\<close>

record IPFixTemplate =
  TemplateID :: uint16
  FieldCount :: uint16
  Fields :: "IPFixField list"

definition NewIPFixTemplate :: "uint16 \<Rightarrow> IPFixField list \<Rightarrow> IPFixTemplate" where
  "NewIPFixTemplate ident flds =
     \<lparr>TemplateID = ident, FieldCount = of_nat (length flds), Fields = flds\<rparr>"

text \<open>The loop \<open>for j := range t.Fields { n += t.Fields[j].Len() }\<close>.\<close>

fun Fields_Len_loop :: "IPFixField list \<Rightarrow> nat \<Rightarrow> nat" where
  "Fields_Len_loop [] n = n"
| "Fields_Len_loop (f # fs) n = Fields_Len_loop fs (n + IPFixField_Len f)"

definition IPFixTemplate_Len :: "IPFixTemplate \<Rightarrow> nat" where
  "IPFixTemplate_Len t = Fields_Len_loop (Fields t) 4"

text \<open>The loop \<open>for _, f := range t.Fields { f.encode(b[offset:]); offset += f.Len() }\<close>.\<close>

fun Fields_encode_loop :: "IPFixField list \<Rightarrow> nat \<Rightarrow> byte list \<Rightarrow> error + byte list" where
  "Fields_encode_loop [] offset b = Inr b"
| "Fields_encode_loop (f # fs) offset b =
     and_then (on_tail b offset (IPFixField_encode f)) (\<lambda>b.
     Fields_encode_loop fs (offset + IPFixField_Len f) b)"

definition IPFixTemplate_encode :: "IPFixTemplate \<Rightarrow> byte list \<Rightarrow> error + byte list" where
  "IPFixTemplate_encode t b =
     and_then (on_slice b 0 2 (\<lambda>s. PutUint16 s (TemplateID t))) (\<lambda>b.
     and_then (on_slice b 2 4 (\<lambda>s. PutUint16 s (FieldCount t))) (\<lambda>b.
     Fields_encode_loop (Fields t) 4 b))"

subsection \<open>IPFixRecord\<close>

record IPFixRecord =
  Data :: "byte list"

definition IPFixRecord_Len :: "IPFixRecord \<Rightarrow> nat" where
  "IPFixRecord_Len r = length (Data r)"

definition IPFixRecord_encode :: "IPFixRecord \<Rightarrow> byte list \<Rightarrow> error + byte list" where
  "IPFixRecord_encode r b = Inr (copy_bytes b (Data r))"

subsection \<open>IPFixSetEntry\<close>

text \<open>The interface \<open>IPFixSetEntry\<close> has two implementations, the template and the record;
  an entry is a pointer to one of them, taken to be non-nil.\<close>

datatype IPFixSetEntry = Template IPFixTemplate | Record IPFixRecord

fun IPFixSetEntry_Len :: "IPFixSetEntry \<Rightarrow> nat" where
  "IPFixSetEntry_Len (Template t) = IPFixTemplate_Len t"
| "IPFixSetEntry_Len (Record r) = IPFixRecord_Len r"

fun IPFixSetEntry_encode :: "IPFixSetEntry \<Rightarrow> byte list \<Rightarrow> error + byte list" where
  "IPFixSetEntry_encode (Template t) b = IPFixTemplate_encode t b"
| "IPFixSetEntry_encode (Record r) b = IPFixRecord_encode r b"

subsection \<open>IPFixSet\<close>

record IPFixSet =
  SetID :: uint16
  SetLength :: uint16
  SetEntries :: "IPFixSetEntry list"

fun Entries_Len_loop :: "IPFixSetEntry list \<Rightarrow> nat \<Rightarrow> nat" where
  "Entries_Len_loop [] n = n"
| "Entries_Len_loop (e # es) n = Entries_Len_loop es (n + IPFixSetEntry_Len e)"

text \<open>\<open>Len\<close> stores \<open>uint16(n)\<close> in the set and returns \<open>n\<close>: the result is the pair of
  the value returned and the set afterwards.\<close>

definition IPFixSet_Len :: "IPFixSet \<Rightarrow> nat \<times> IPFixSet" where
  "IPFixSet_Len s =
     (let n = Entries_Len_loop (SetEntries s) 4
      in (n, s\<lparr>SetLength := of_nat n\<rparr>))"

text \<open>The set as a call of \<open>Len\<close> leaves it.\<close>

definition refresh :: "IPFixSet \<Rightarrow> IPFixSet" where
  "refresh s = snd (IPFixSet_Len s)"

definition IPFixSet_IsDataSet :: "IPFixSet \<Rightarrow> bool" where
  "IPFixSet_IsDataSet s = (SetID s > 255)"

fun Entries_encode_loop :: "IPFixSetEntry list \<Rightarrow> nat \<Rightarrow> byte list \<Rightarrow> error + byte list" where
  "Entries_encode_loop [] offset b = Inr b"
| "Entries_encode_loop (t # ts) offset b =
     and_then (on_tail b offset (IPFixSetEntry_encode t)) (\<lambda>b.
     Entries_encode_loop ts (offset + IPFixSetEntry_Len t) b)"

definition IPFixSet_encode :: "IPFixSet \<Rightarrow> byte list \<Rightarrow> error + byte list" where
  "IPFixSet_encode s b =
     and_then (on_slice b 0 2 (\<lambda>h. PutUint16 h (SetID s))) (\<lambda>b.
     and_then (on_slice b 2 4 (\<lambda>h. PutUint16 h (SetLength s))) (\<lambda>b.
     Entries_encode_loop (SetEntries s) 4 b))"

subsection \<open>IPFix\<close>

definition IpfixHeaderLenVer10 :: nat where
  "IpfixHeaderLenVer10 = 16"

definition IpfixHeaderLenVer9 :: nat where
  "IpfixHeaderLenVer9 = 20"

text \<open>The embedded \<open>BaseLayer\<close> is declared elsewhere and is not read or written by
  this file; the record holds the fields the encoder uses.\<close>

record IPFix =
  Ver :: uint16
  PktLength :: uint16
  SysUpTime :: uint32
  Timestamp :: uint32
  FlowSeq :: uint32
  DomainID :: uint32
  SourceID :: uint32
  Sets :: "IPFixSet list"

text \<open>The loop \<open>for j := range i.Sets { n += i.Sets[j].Len() }\<close> updates each set in
  place.\<close>

fun Sets_Len_loop :: "IPFixSet list \<Rightarrow> nat \<Rightarrow> nat \<times> IPFixSet list" where
  "Sets_Len_loop [] n = (n, [])"
| "Sets_Len_loop (s # ss) n =
     (case IPFixSet_Len s of (k, s') \<Rightarrow>
      case Sets_Len_loop ss (n + k) of (n', ss') \<Rightarrow> (n', s' # ss'))"

definition IPFix_Len :: "IPFix \<Rightarrow> nat \<times> IPFix" where
  "IPFix_Len i =
     (let n = IpfixHeaderLenVer10;
          n = (if Ver i = 9 then IpfixHeaderLenVer9 else n)
      in case Sets_Len_loop (Sets i) n of
           (n, ss) \<Rightarrow> (n, i\<lparr>Sets := ss, PktLength := of_nat n\<rparr>))"

text \<open>The loop \<open>for j := range i.Sets { setCount += len(i.Sets[j].SetEntries) }\<close>.\<close>

fun setCount_loop :: "IPFixSet list \<Rightarrow> nat \<Rightarrow> nat" where
  "setCount_loop [] setCount = setCount"
| "setCount_loop (s # ss) setCount = setCount_loop ss (setCount + length (SetEntries s))"

text \<open>The loop \<open>for _, s := range i.Sets { s.encode(data[offset:]); offset += int(s.Length) }\<close>:
  the cursor moves by the stored length.\<close>

fun Sets_encode_loop :: "IPFixSet list \<Rightarrow> nat \<Rightarrow> byte list \<Rightarrow> error + byte list" where
  "Sets_encode_loop [] offset data = Inr data"
| "Sets_encode_loop (s # ss) offset data =
     and_then (on_tail data offset (IPFixSet_encode s)) (\<lambda>data.
     Sets_encode_loop ss (offset + unat (SetLength s)) data)"

text \<open>
  \<open>SerializeTo\<close> takes \<open>b.PrependBytes\<close> of the caller's buffer as the function
  \<open>PrependBytes\<close>: it fails with an error, or returns the reserved slice, whose bytes are
  in an indeterminate state. The result is the packet after \<open>Len\<close> and the reserved slice
  as \<open>SerializeTo\<close> leaves it. That the slice has the length asked for is the contract
  of the buffer; the theorems about \<open>SerializeTo\<close> assume it.
\<close>

definition IPFix_SerializeTo ::
  "IPFix \<Rightarrow> (nat \<Rightarrow> error + byte list) \<Rightarrow> error + (IPFix \<times> byte list)" where
  "IPFix_SerializeTo i0 PrependBytes =
     (case IPFix_Len i0 of (plen, i) \<Rightarrow>
      and_then (PrependBytes plen) (\<lambda>data.
      let offset = IpfixHeaderLenVer10 in
      and_then (on_slice data 0 2 (\<lambda>h. PutUint16 h (Ver i))) (\<lambda>data.
      and_then
        (if Ver i = 10 then
           and_then (on_slice data 2 4 (\<lambda>h. PutUint16 h (PktLength i))) (\<lambda>data.
           and_then (on_slice data 4 8 (\<lambda>h. PutUint32 h (Timestamp i))) (\<lambda>data.
           and_then (on_slice data 8 12 (\<lambda>h. PutUint32 h (FlowSeq i))) (\<lambda>data.
           on_slice data 12 16 (\<lambda>h. PutUint32 h (DomainID i)))))
         else Inr data) (\<lambda>data.
      and_then
        (if Ver i = 9 then
           let setCount = setCount_loop (Sets i) 0 in
           and_then (on_slice data 2 4 (\<lambda>h. PutUint16 h (of_nat setCount))) (\<lambda>data.
           and_then (on_slice data 4 8 (\<lambda>h. PutUint32 h (SysUpTime i))) (\<lambda>data.
           and_then (on_slice data 8 12 (\<lambda>h. PutUint32 h (Timestamp i))) (\<lambda>data.
           and_then (on_slice data 12 16 (\<lambda>h. PutUint32 h (FlowSeq i))) (\<lambda>data.
           and_then (on_slice data 16 20 (\<lambda>h. PutUint32 h (SourceID i))) (\<lambda>data.
           Inr (data, offset + 4))))))
         else Inr (data, offset)) (\<lambda>(data, offset).
      and_then (Sets_encode_loop (Sets i) offset data) (\<lambda>data.
      Inr (i, data)))))))"

text \<open>\<open>decodeIPFix\<close> returns its error and calls nothing on the packet builder \<open>p\<close>: the
  result is the error returned and the builder afterwards.\<close>

definition decodeIPFix :: "byte list \<Rightarrow> 'pb \<Rightarrow> error option \<times> 'pb" where
  "decodeIPFix data p = (Some (Err ''Not Implemented yet''), p)"

subsection \<open>The byte strings of the wire format\<close>

text \<open>
  The definitions of this subsection are not translated from the code: they state the
  wire format in the words of the interface description (big-endian fields at fixed
  offsets, a set as its 4-byte header followed by its entries, a packet as its header
  followed by its sets), to be compared with what the encoder above writes.
\<close>

definition be16 :: "uint16 \<Rightarrow> byte list" where
  "be16 v = [ucast (drop_bit 8 v), ucast v]"

definition be32 :: "uint32 \<Rightarrow> byte list" where
  "be32 v = [ucast (drop_bit 24 v), ucast (drop_bit 16 v), ucast (drop_bit 8 v), ucast v]"

definition IPFixField_bytes :: "IPFixField \<Rightarrow> byte list" where
  "IPFixField_bytes f =
     be16 (Type f) @ be16 (FieldLength f) @
     (if IPFixField_IsEnterprise f then be32 (EnterpriseNumber f) else [])"

definition IPFixTemplate_bytes :: "IPFixTemplate \<Rightarrow> byte list" where
  "IPFixTemplate_bytes t =
     be16 (TemplateID t) @ be16 (FieldCount t) @ concat (map IPFixField_bytes (Fields t))"

fun IPFixSetEntry_bytes :: "IPFixSetEntry \<Rightarrow> byte list" where
  "IPFixSetEntry_bytes (Template t) = IPFixTemplate_bytes t"
| "IPFixSetEntry_bytes (Record r) = Data r"

definition IPFixSet_bytes :: "IPFixSet \<Rightarrow> byte list" where
  "IPFixSet_bytes s =
     be16 (SetID s) @ be16 (SetLength s) @ concat (map IPFixSetEntry_bytes (SetEntries s))"

text \<open>The byte length of a set: its 4-byte header and its entries.\<close>

definition IPFixSet_size :: "IPFixSet \<Rightarrow> nat" where
  "IPFixSet_size s = 4 + sum_list (map IPFixSetEntry_Len (SetEntries s))"

text \<open>The total number of entries over all sets of a packet.\<close>

definition total_entries :: "IPFix \<Rightarrow> nat" where
  "total_entries i = sum_list (map (\<lambda>s. length (SetEntries s)) (Sets i))"

text \<open>The header length, and the two headers: 16 bytes for version 10 (version, length,
  timestamp, flow sequence number, domain id), 20 bytes for version 9 (version, count,
  system uptime, timestamp, flow sequence number, source id).\<close>

definition header_len :: "IPFix \<Rightarrow> nat" where
  "header_len i = (if Ver i = 9 then 20 else 16)"

definition header_v10 :: "IPFix \<Rightarrow> byte list" where
  "header_v10 i =
     be16 (Ver i) @ be16 (PktLength i) @ be32 (Timestamp i) @ be32 (FlowSeq i) @
     be32 (DomainID i)"

definition header_v9 :: "IPFix \<Rightarrow> byte list" where
  "header_v9 i =
     be16 (Ver i) @ be16 (of_nat (total_entries i)) @ be32 (SysUpTime i) @
     be32 (Timestamp i) @ be32 (FlowSeq i) @ be32 (SourceID i)"

text \<open>A packet on the wire: the header of its version, then its sets in order.\<close>

definition packet_bytes :: "IPFix \<Rightarrow> byte list" where
  "packet_bytes i =
     (if Ver i = 9 then header_v9 i else header_v10 i) @
     concat (map IPFixSet_bytes (Sets i))"

subsection \<open>Concrete fields, sets and packets\<close>

text \<open>
  \<open>reserve_fill c\<close> is a buffer whose \<open>PrependBytes\<close> always succeeds and hands out
  bytes that all hold \<open>c\<close>. \<open>packet_A\<close>, \<open>packet_B\<close>, \<open>enterprise_field\<close> and \<open>packet_D\<close>
  are the scenarios A to D of the testable properties. \<open>oversize_set\<close> has a byte length
  of 65536, \<open>oversize_packet\<close> holds it before a second set, and \<open>crowded_packet\<close> is a
  version-9 packet of 65536 empty records.
\<close>

definition reserve_fill :: "byte \<Rightarrow> nat \<Rightarrow> error + byte list" where
  "reserve_fill c n = Inr (replicate n c)"

definition enterprise_field :: IPFixField where
  "enterprise_field =
     \<lparr>Name = ''probe'', Type = 0x8005, FieldLength = 4, EnterpriseNumber = 12345, Offset = 0\<rparr>"

definition plain_field :: IPFixField where
  "plain_field =
     \<lparr>Name = ''octets'', Type = 1, FieldLength = 8, EnterpriseNumber = 0, Offset = 0\<rparr>"

definition packet_A :: IPFix where
  "packet_A =
     \<lparr>Ver = 10, PktLength = 0, SysUpTime = 0, Timestamp = 1000, FlowSeq = 1, DomainID = 100,
      SourceID = 0, Sets = []\<rparr>"

definition oversize_set :: IPFixSet where
  "oversize_set =
     \<lparr>SetID = 256, SetLength = 0, SetEntries = [Record \<lparr>Data = replicate 65532 0\<rparr>]\<rparr>"

definition small_set :: IPFixSet where
  "small_set = \<lparr>SetID = 257, SetLength = 0, SetEntries = []\<rparr>"

definition oversize_packet :: IPFix where
  "oversize_packet =
     \<lparr>Ver = 10, PktLength = 0, SysUpTime = 0, Timestamp = 1000, FlowSeq = 1, DomainID = 100,
      SourceID = 0, Sets = [oversize_set, small_set]\<rparr>"

definition record_1 :: IPFixSetEntry where
  "record_1 = Record \<lparr>Data = [1, 2, 3, 4]\<rparr>"

definition packet_D :: IPFix where
  "packet_D =
     \<lparr>Ver = 9, PktLength = 0, SysUpTime = 5000, Timestamp = 1000, FlowSeq = 1, DomainID = 0,
      SourceID = 7,
      Sets = [\<lparr>SetID = 256, SetLength = 0, SetEntries = [record_1, record_1]\<rparr>,
              \<lparr>SetID = 257, SetLength = 0, SetEntries = [record_1]\<rparr>]\<rparr>"

definition crowded_packet :: IPFix where
  "crowded_packet =
     \<lparr>Ver = 9, PktLength = 0, SysUpTime = 5000, Timestamp = 1000, FlowSeq = 1, DomainID = 0,
      SourceID = 7,
      Sets = [\<lparr>SetID = 256, SetLength = 0,
               SetEntries = replicate 65536 (Record \<lparr>Data = []\<rparr>)\<rparr>]\<rparr>"

definition data_set_B :: IPFixSet where
  "data_set_B = \<lparr>SetID = 256, SetLength = 0, SetEntries = [record_1]\<rparr>"

definition packet_B :: IPFix where
  "packet_B =
     \<lparr>Ver = 10, PktLength = 0, SysUpTime = 0, Timestamp = 1000, FlowSeq = 1, DomainID = 100,
      SourceID = 0, Sets = [data_set_B]\<rparr>"

section \<open>Writing through slices\<close>

lemma length_be16 [simp]: "length (be16 v) = 2"
  by (simp add: be16_def)

lemma length_be32 [simp]: "length (be32 v) = 4"
  by (simp add: be32_def)

lemma list2_update:
  assumes "length s = 2"
  shows "s[0 := x, Suc 0 := y] = [x, y]"
proof -
  from assms obtain a r where s: "s = a # r" and "length r = 1"
    by (cases s) auto
  then obtain c where "r = [c]"
    by (cases r) auto
  with s show ?thesis by simp
qed

lemma list4_update:
  assumes "length s = 4"
  shows "s[0 := w, Suc 0 := x, 2 := y, 3 := z] = [w, x, y, z]"
proof -
  from assms obtain a b c d where "s = [a, b, c, d]"
    by (auto simp: length_Suc_conv numeral_eq_Suc)
  then show ?thesis by (simp add: numeral_eq_Suc)
qed

lemma put16_at:
  assumes "hi = lo + 2" and "hi \<le> length b"
  shows "on_slice b lo hi (\<lambda>s. PutUint16 s v) = Inr (take lo b @ be16 v @ drop hi b)"
proof -
  have "length (take 2 (drop lo b)) = 2"
    using assms by simp
  then have "(take 2 (drop lo b))[0 := ucast (drop_bit 8 v), Suc 0 := ucast v] = be16 v"
    unfolding be16_def by (rule list2_update)
  with assms show ?thesis
    by (simp add: on_slice_def PutUint16_def)
qed

lemma put32_at:
  assumes "hi = lo + 4" and "hi \<le> length b"
  shows "on_slice b lo hi (\<lambda>s. PutUint32 s v) = Inr (take lo b @ be32 v @ drop hi b)"
proof -
  have "length (take 4 (drop lo b)) = 4"
    using assms by simp
  then have "(take 4 (drop lo b))[0 := ucast (drop_bit 24 v), Suc 0 := ucast (drop_bit 16 v),
       2 := ucast (drop_bit 8 v), 3 := ucast v] = be32 v"
    unfolding be32_def by (rule list4_update)
  with assms show ?thesis
    by (simp add: on_slice_def PutUint32_def)
qed

section \<open>Fields and the field loop\<close>

lemma bit_0x8000: "bit (0x8000 :: uint16) n \<longleftrightarrow> n = 15"
proof -
  have "bit (2 ^ 15 :: uint16) n \<longleftrightarrow> n = 15"
    by (simp only: bit_exp_iff possible_bit_word) auto
  then show ?thesis by simp
qed

lemma and_0x8000: "(w AND 0x8000 = 0x8000) \<longleftrightarrow> bit w 15" for w :: uint16
proof
  assume "w AND 0x8000 = 0x8000"
  then have "bit (w AND 0x8000) 15 = bit (0x8000 :: uint16) 15"
    by (simp only:)
  then show "bit w 15"
    by (simp only: bit_and_iff bit_0x8000) simp
next
  assume w: "bit w 15"
  show "w AND 0x8000 = 0x8000"
  proof (rule bit_eqI)
    fix n
    show "bit (w AND 0x8000) n = bit (0x8000 :: uint16) n"
      using w by (simp only: bit_and_iff bit_0x8000) auto
  qed
qed

lemma IsEnterprise_bit: "IPFixField_IsEnterprise f \<longleftrightarrow> bit (Type f) 15"
  by (simp only: IPFixField_IsEnterprise_def and_0x8000)

lemma length_field_bytes [simp]: "length (IPFixField_bytes f) = IPFixField_Len f"
  by (simp add: IPFixField_bytes_def IPFixField_Len_def)

lemma field_encode_ok:
  assumes "IPFixField_Len f \<le> length b"
  shows "IPFixField_encode f b = Inr (IPFixField_bytes f @ drop (IPFixField_Len f) b)"
  using assms
  by (auto simp: IPFixField_encode_def IPFixField_bytes_def IPFixField_Len_def and_then_def
      put16_at put32_at)

lemma on_tail_prefix:
  assumes "off + n \<le> length b"
    and "f (drop off b) = Inr (bs @ drop n (drop off b))"
    and "length bs = n"
  shows "on_tail b off f = Inr (take off b @ bs @ drop (off + n) b)"
  using assms by (simp add: on_tail_def on_slice_def add.commute)

lemma Fields_Len_loop_sum: "Fields_Len_loop fs n = n + sum_list (map IPFixField_Len fs)"
  by (induction fs arbitrary: n) simp_all

lemma Fields_encode_loop_ok:
  assumes "off + sum_list (map IPFixField_Len fs) \<le> length b"
  shows "Fields_encode_loop fs off b =
         Inr (take off b @ concat (map IPFixField_bytes fs) @
              drop (off + sum_list (map IPFixField_Len fs)) b)"
  using assms
proof (induction fs arbitrary: off b)
  case Nil
  then show ?case by simp
next
  case (Cons f fs)
  let ?n = "IPFixField_Len f"
  let ?b = "take off b @ IPFixField_bytes f @ drop (off + ?n) b"
  from Cons.prems have le: "off + ?n \<le> length b" by simp
  then have "IPFixField_encode f (drop off b) =
      Inr (IPFixField_bytes f @ drop ?n (drop off b))"
    by (intro field_encode_ok) simp
  with le have step: "on_tail b off (IPFixField_encode f) = Inr ?b"
    by (intro on_tail_prefix) simp_all
  from le have len: "length ?b = length b" by simp
  with Cons.prems have "(off + ?n) + sum_list (map IPFixField_Len fs) \<le> length ?b"
    by simp
  from Cons.IH [OF this] le show ?case
    by (simp add: step and_then_def ac_simps)
qed

section \<open>Templates, records and sets\<close>

lemma length_concat_field_bytes:
  "length (concat (map IPFixField_bytes fs)) = sum_list (map IPFixField_Len fs)"
  by (induction fs) simp_all

lemma IPFixTemplate_Len_sum:
  "IPFixTemplate_Len t = 4 + sum_list (map IPFixField_Len (Fields t))"
  by (simp add: IPFixTemplate_Len_def Fields_Len_loop_sum)

lemma length_template_bytes [simp]: "length (IPFixTemplate_bytes t) = IPFixTemplate_Len t"
  by (simp add: IPFixTemplate_bytes_def IPFixTemplate_Len_sum length_concat_field_bytes)

lemma template_encode_ok:
  assumes "IPFixTemplate_Len t \<le> length b"
  shows "IPFixTemplate_encode t b = Inr (IPFixTemplate_bytes t @ drop (IPFixTemplate_Len t) b)"
proof -
  let ?h = "be16 (TemplateID t) @ be16 (FieldCount t)"
  from assms have le: "4 + sum_list (map IPFixField_Len (Fields t)) \<le> length b"
    by (simp add: IPFixTemplate_Len_sum)
  then have hdr: "and_then (on_slice b 0 2 (\<lambda>s. PutUint16 s (TemplateID t))) (\<lambda>b.
      on_slice b 2 4 (\<lambda>s. PutUint16 s (FieldCount t))) = Inr (?h @ drop 4 b)"
    by (simp add: put16_at and_then_def)
  from le have "Fields_encode_loop (Fields t) 4 (?h @ drop 4 b) =
      Inr (take 4 (?h @ drop 4 b) @ concat (map IPFixField_bytes (Fields t)) @
           drop (4 + sum_list (map IPFixField_Len (Fields t))) (?h @ drop 4 b))"
    by (intro Fields_encode_loop_ok) simp
  with le hdr show ?thesis
    by (simp add: IPFixTemplate_encode_def IPFixTemplate_bytes_def IPFixTemplate_Len_sum
        and_then_def put16_at add.commute)
qed

lemma record_encode_ok:
  assumes "IPFixRecord_Len r \<le> length b"
  shows "IPFixRecord_encode r b = Inr (Data r @ drop (IPFixRecord_Len r) b)"
  using assms by (simp add: IPFixRecord_encode_def IPFixRecord_Len_def copy_bytes_def min_def)

lemma length_entry_bytes [simp]: "length (IPFixSetEntry_bytes e) = IPFixSetEntry_Len e"
  by (cases e) (simp_all add: IPFixRecord_Len_def)

lemma entry_encode_ok:
  assumes "IPFixSetEntry_Len e \<le> length b"
  shows "IPFixSetEntry_encode e b = Inr (IPFixSetEntry_bytes e @ drop (IPFixSetEntry_Len e) b)"
  using assms by (cases e) (simp_all add: template_encode_ok record_encode_ok)

lemma Entries_Len_loop_sum: "Entries_Len_loop es n = n + sum_list (map IPFixSetEntry_Len es)"
  by (induction es arbitrary: n) simp_all

lemma length_concat_entry_bytes:
  "length (concat (map IPFixSetEntry_bytes es)) = sum_list (map IPFixSetEntry_Len es)"
  by (induction es) simp_all

lemma Entries_encode_loop_ok:
  assumes "off + sum_list (map IPFixSetEntry_Len es) \<le> length b"
  shows "Entries_encode_loop es off b =
         Inr (take off b @ concat (map IPFixSetEntry_bytes es) @
              drop (off + sum_list (map IPFixSetEntry_Len es)) b)"
  using assms
proof (induction es arbitrary: off b)
  case Nil
  then show ?case by simp
next
  case (Cons e es)
  let ?n = "IPFixSetEntry_Len e"
  let ?b = "take off b @ IPFixSetEntry_bytes e @ drop (off + ?n) b"
  from Cons.prems have le: "off + ?n \<le> length b" by simp
  then have "IPFixSetEntry_encode e (drop off b) =
      Inr (IPFixSetEntry_bytes e @ drop ?n (drop off b))"
    by (intro entry_encode_ok) simp
  with le have step: "on_tail b off (IPFixSetEntry_encode e) = Inr ?b"
    by (intro on_tail_prefix) simp_all
  from le have len: "length ?b = length b" by simp
  with Cons.prems have "(off + ?n) + sum_list (map IPFixSetEntry_Len es) \<le> length ?b"
    by simp
  from Cons.IH [OF this] le show ?case
    by (simp add: step and_then_def ac_simps)
qed

lemma length_set_bytes [simp]: "length (IPFixSet_bytes s) = IPFixSet_size s"
  by (simp add: IPFixSet_bytes_def IPFixSet_size_def length_concat_entry_bytes)

lemma IPFixSet_Len_eq:
  "IPFixSet_Len s = (IPFixSet_size s, s\<lparr>SetLength := of_nat (IPFixSet_size s)\<rparr>)"
  by (simp add: IPFixSet_Len_def IPFixSet_size_def Entries_Len_loop_sum)

lemma set_encode_ok:
  assumes "IPFixSet_size s \<le> length b"
  shows "IPFixSet_encode s b = Inr (IPFixSet_bytes s @ drop (IPFixSet_size s) b)"
proof -
  let ?h = "be16 (SetID s) @ be16 (SetLength s)"
  from assms have le: "4 + sum_list (map IPFixSetEntry_Len (SetEntries s)) \<le> length b"
    by (simp add: IPFixSet_size_def)
  from le have "Entries_encode_loop (SetEntries s) 4 (?h @ drop 4 b) =
      Inr (take 4 (?h @ drop 4 b) @ concat (map IPFixSetEntry_bytes (SetEntries s)) @
           drop (4 + sum_list (map IPFixSetEntry_Len (SetEntries s))) (?h @ drop 4 b))"
    by (intro Entries_encode_loop_ok) simp
  with le show ?thesis
    by (simp add: IPFixSet_encode_def IPFixSet_bytes_def IPFixSet_size_def
        and_then_def put16_at add.commute)
qed

section \<open>Packets: \<open>Len\<close> and \<open>SerializeTo\<close>\<close>

lemma refresh_eq: "refresh s = s\<lparr>SetLength := of_nat (IPFixSet_size s)\<rparr>"
  by (simp add: refresh_def IPFixSet_Len_eq)

lemma size_refresh [simp]: "IPFixSet_size (refresh s) = IPFixSet_size s"
  by (simp add: refresh_eq IPFixSet_size_def)

lemma Sets_Len_loop_eq:
  "Sets_Len_loop ss n = (n + sum_list (map IPFixSet_size ss), map refresh ss)"
  by (induction ss arbitrary: n) (simp_all add: IPFixSet_Len_eq refresh_eq)

lemma IPFix_Len_eq:
  "IPFix_Len i =
     (header_len i + sum_list (map IPFixSet_size (Sets i)),
      i\<lparr>Sets := map refresh (Sets i),
        PktLength := of_nat (header_len i + sum_list (map IPFixSet_size (Sets i)))\<rparr>)"
  by (simp add: IPFix_Len_def Sets_Len_loop_eq header_len_def IpfixHeaderLenVer9_def
      IpfixHeaderLenVer10_def)

lemma setCount_loop_sum:
  "setCount_loop ss c = c + sum_list (map (\<lambda>s. length (SetEntries s)) ss)"
  by (induction ss arbitrary: c) simp_all

lemma unat_refresh_le: "unat (SetLength (refresh s)) \<le> IPFixSet_size s"
  by (simp add: refresh_eq unat_of_nat)

lemma Sets_encode_loop_runs:
  assumes "off + sum_list (map IPFixSet_size ss) \<le> length data"
    and "\<forall>s \<in> set ss. unat (SetLength s) \<le> IPFixSet_size s"
  shows "\<exists>out. Sets_encode_loop ss off data = Inr out \<and> length out = length data \<and>
           take off out = take off data"
  using assms
proof (induction ss arbitrary: off data)
  case Nil
  then show ?case by simp
next
  case (Cons s ss)
  let ?n = "IPFixSet_size s"
  let ?b = "take off data @ IPFixSet_bytes s @ drop (off + ?n) data"
  let ?off = "off + unat (SetLength s)"
  from Cons.prems have le: "off + ?n \<le> length data" by simp
  then have "IPFixSet_encode s (drop off data) =
      Inr (IPFixSet_bytes s @ drop ?n (drop off data))"
    by (intro set_encode_ok) simp
  with le have step: "on_tail data off (IPFixSet_encode s) = Inr ?b"
    by (intro on_tail_prefix) simp_all
  from le have len: "length ?b = length data" by simp
  from Cons.prems have lag: "unat (SetLength s) \<le> ?n" by simp
  with Cons.prems len have "?off + sum_list (map IPFixSet_size ss) \<le> length ?b"
    by simp
  moreover from Cons.prems have "\<forall>s \<in> set ss. unat (SetLength s) \<le> IPFixSet_size s"
    by simp
  ultimately obtain out where out: "Sets_encode_loop ss ?off ?b = Inr out"
    "length out = length ?b" "take ?off out = take ?off ?b"
    using Cons.IH by blast
  have "take off out = take off (take ?off out)"
    by (simp add: min_def)
  also have "\<dots> = take off (take ?off ?b)"
    by (simp only: out)
  also have "\<dots> = take off data"
    using le by (simp add: min_def)
  finally have "take off out = take off data" .
  with out len show ?case
    by (simp add: step and_then_def)
qed

lemma Sets_encode_loop_ok:
  assumes "off + sum_list (map IPFixSet_size ss) \<le> length data"
    and "\<forall>s \<in> set (butlast ss). unat (SetLength s) = IPFixSet_size s"
  shows "Sets_encode_loop ss off data =
         Inr (take off data @ concat (map IPFixSet_bytes ss) @
              drop (off + sum_list (map IPFixSet_size ss)) data)"
  using assms
proof (induction ss arbitrary: off data)
  case Nil
  then show ?case by simp
next
  case (Cons s ss)
  let ?n = "IPFixSet_size s"
  let ?b = "take off data @ IPFixSet_bytes s @ drop (off + ?n) data"
  from Cons.prems have le: "off + ?n \<le> length data" by simp
  then have "IPFixSet_encode s (drop off data) =
      Inr (IPFixSet_bytes s @ drop ?n (drop off data))"
    by (intro set_encode_ok) simp
  with le have step: "on_tail data off (IPFixSet_encode s) = Inr ?b"
    by (intro on_tail_prefix) simp_all
  show ?case
  proof (cases ss)
    case Nil
    then show ?thesis by (simp add: step and_then_def)
  next
    case (Cons s' ss')
    with Cons.prems have fit: "unat (SetLength s) = ?n"
      and rest: "\<forall>s \<in> set (butlast ss). unat (SetLength s) = IPFixSet_size s"
      by simp_all
    from le have len: "length ?b = length data" by simp
    with Cons.prems have "(off + ?n) + sum_list (map IPFixSet_size ss) \<le> length ?b"
      by simp
    from Cons.IH [OF this rest] le show ?thesis
      by (simp add: step and_then_def fit ac_simps)
  qed
qed

lemma header_v10_written:
  assumes "16 \<le> length data"
  shows "and_then (on_slice data 0 2 (\<lambda>h. PutUint16 h (Ver i))) (\<lambda>data.
         and_then (on_slice data 2 4 (\<lambda>h. PutUint16 h (PktLength i))) (\<lambda>data.
         and_then (on_slice data 4 8 (\<lambda>h. PutUint32 h (Timestamp i))) (\<lambda>data.
         and_then (on_slice data 8 12 (\<lambda>h. PutUint32 h (FlowSeq i))) (\<lambda>data.
         on_slice data 12 16 (\<lambda>h. PutUint32 h (DomainID i)))))) =
         Inr (header_v10 i @ drop 16 data)"
  using assms by (simp add: put16_at put32_at and_then_def header_v10_def)

lemma header_v9_written:
  assumes "20 \<le> length data"
  shows "and_then (on_slice data 0 2 (\<lambda>h. PutUint16 h (Ver i))) (\<lambda>data.
         and_then (on_slice data 2 4 (\<lambda>h. PutUint16 h (of_nat (total_entries i)))) (\<lambda>data.
         and_then (on_slice data 4 8 (\<lambda>h. PutUint32 h (SysUpTime i))) (\<lambda>data.
         and_then (on_slice data 8 12 (\<lambda>h. PutUint32 h (Timestamp i))) (\<lambda>data.
         and_then (on_slice data 12 16 (\<lambda>h. PutUint32 h (FlowSeq i))) (\<lambda>data.
         on_slice data 16 20 (\<lambda>h. PutUint32 h (SourceID i))))))) =
         Inr (header_v9 i @ drop 20 data)"
  using assms by (simp add: put16_at put32_at and_then_def header_v9_def)

lemma and_then_Inr [simp]: "and_then (Inr x) f = f x"
  by (simp add: and_then_def)

lemma and_then_assoc: "and_then (and_then r f) g = and_then r (\<lambda>x. and_then (f x) g)"
  by (cases r) (simp_all add: and_then_def)

lemma SerializeTo_v10:
  assumes "Ver i = 10"
  shows "IPFix_SerializeTo i PrependBytes =
     and_then (PrependBytes (fst (IPFix_Len i))) (\<lambda>data.
     and_then (and_then (on_slice data 0 2 (\<lambda>h. PutUint16 h (Ver (snd (IPFix_Len i))))) (\<lambda>data.
         and_then (on_slice data 2 4 (\<lambda>h. PutUint16 h (PktLength (snd (IPFix_Len i))))) (\<lambda>data.
         and_then (on_slice data 4 8 (\<lambda>h. PutUint32 h (Timestamp (snd (IPFix_Len i))))) (\<lambda>data.
         and_then (on_slice data 8 12 (\<lambda>h. PutUint32 h (FlowSeq (snd (IPFix_Len i))))) (\<lambda>data.
         on_slice data 12 16 (\<lambda>h. PutUint32 h (DomainID (snd (IPFix_Len i)))))))))
     (\<lambda>data. and_then (Sets_encode_loop (Sets (snd (IPFix_Len i))) 16 data)
        (\<lambda>data. Inr (snd (IPFix_Len i), data))))"
  using assms
  by (simp add: IPFix_SerializeTo_def IPFix_Len_eq and_then_assoc IpfixHeaderLenVer10_def
      cong: if_cong)

lemma SerializeTo_v9:
  assumes "Ver i = 9"
  shows "IPFix_SerializeTo i PrependBytes =
     and_then (PrependBytes (fst (IPFix_Len i))) (\<lambda>data.
     and_then (and_then (on_slice data 0 2 (\<lambda>h. PutUint16 h (Ver (snd (IPFix_Len i))))) (\<lambda>data.
         and_then (on_slice data 2 4
            (\<lambda>h. PutUint16 h (of_nat (total_entries (snd (IPFix_Len i)))))) (\<lambda>data.
         and_then (on_slice data 4 8 (\<lambda>h. PutUint32 h (SysUpTime (snd (IPFix_Len i))))) (\<lambda>data.
         and_then (on_slice data 8 12 (\<lambda>h. PutUint32 h (Timestamp (snd (IPFix_Len i))))) (\<lambda>data.
         and_then (on_slice data 12 16 (\<lambda>h. PutUint32 h (FlowSeq (snd (IPFix_Len i))))) (\<lambda>data.
         on_slice data 16 20 (\<lambda>h. PutUint32 h (SourceID (snd (IPFix_Len i))))))))))
     (\<lambda>data. and_then (Sets_encode_loop (Sets (snd (IPFix_Len i))) 20 data)
        (\<lambda>data. Inr (snd (IPFix_Len i), data))))"
  using assms
  by (simp add: IPFix_SerializeTo_def IPFix_Len_eq and_then_assoc IpfixHeaderLenVer10_def
      setCount_loop_sum total_entries_def cong: if_cong)

lemma length_header_v10 [simp]: "length (header_v10 i) = 16"
  by (simp add: header_v10_def)

lemma length_header_v9 [simp]: "length (header_v9 i) = 20"
  by (simp add: header_v9_def)

lemma Sets_after_Len: "Sets (snd (IPFix_Len i)) = map refresh (Sets i)"
  by (simp add: IPFix_Len_eq)

lemma Ver_after_Len: "Ver (snd (IPFix_Len i)) = Ver i"
  by (simp add: IPFix_Len_eq)

lemma fst_IPFix_Len:
  "fst (IPFix_Len i) = header_len i + sum_list (map IPFixSet_size (Sets i))"
  by (simp add: IPFix_Len_eq)

lemma sizes_after_Len:
  "sum_list (map IPFixSet_size (Sets (snd (IPFix_Len i)))) =
   sum_list (map IPFixSet_size (Sets i))"
  by (simp add: Sets_after_Len comp_def)

lemma lag_after_Len:
  "\<forall>s \<in> set (Sets (snd (IPFix_Len i))). unat (SetLength s) \<le> IPFixSet_size s"
  by (auto simp: Sets_after_Len unat_refresh_le)

lemma serialize_runs_v10:
  assumes v: "Ver i = 10"
    and r: "PrependBytes (fst (IPFix_Len i)) = Inr data"
    and l: "length data = fst (IPFix_Len i)"
  shows "\<exists>out. IPFix_SerializeTo i PrependBytes = Inr (snd (IPFix_Len i), out) \<and>
           length out = fst (IPFix_Len i) \<and> take 16 out = header_v10 (snd (IPFix_Len i))"
proof -
  let ?i = "snd (IPFix_Len i)"
  let ?d = "header_v10 ?i @ drop 16 data"
  from v l have n: "length data = 16 + sum_list (map IPFixSet_size (Sets i))"
    by (simp add: fst_IPFix_Len header_len_def)
  then have d: "length ?d = length data" by simp
  with n have "16 + sum_list (map IPFixSet_size (Sets ?i)) \<le> length ?d"
    by (simp only: sizes_after_Len)
  from Sets_encode_loop_runs [OF this lag_after_Len]
  obtain out where out: "Sets_encode_loop (Sets ?i) 16 ?d = Inr out"
    "length out = length ?d" "take 16 out = take 16 ?d"
    by blast
  from n have "IPFix_SerializeTo i PrependBytes = Inr (?i, out)"
    by (simp add: SerializeTo_v10 [OF v] r header_v10_written out)
  with out d l show ?thesis by simp
qed

lemma serialize_runs_v9:
  assumes v: "Ver i = 9"
    and r: "PrependBytes (fst (IPFix_Len i)) = Inr data"
    and l: "length data = fst (IPFix_Len i)"
  shows "\<exists>out. IPFix_SerializeTo i PrependBytes = Inr (snd (IPFix_Len i), out) \<and>
           length out = fst (IPFix_Len i) \<and> take 20 out = header_v9 (snd (IPFix_Len i))"
proof -
  let ?i = "snd (IPFix_Len i)"
  let ?d = "header_v9 ?i @ drop 20 data"
  from v l have n: "length data = 20 + sum_list (map IPFixSet_size (Sets i))"
    by (simp add: fst_IPFix_Len header_len_def)
  then have d: "length ?d = length data" by simp
  with n have "20 + sum_list (map IPFixSet_size (Sets ?i)) \<le> length ?d"
    by (simp only: sizes_after_Len)
  from Sets_encode_loop_runs [OF this lag_after_Len]
  obtain out where out: "Sets_encode_loop (Sets ?i) 20 ?d = Inr out"
    "length out = length ?d" "take 20 out = take 20 ?d"
    by blast
  from n have "IPFix_SerializeTo i PrependBytes = Inr (?i, out)"
    by (simp add: SerializeTo_v9 [OF v] r header_v9_written out)
  with out d l show ?thesis by simp
qed

lemma fit_after_Len:
  assumes "\<forall>s \<in> set (butlast (Sets i)). IPFixSet_size s \<le> 65535"
  shows "\<forall>s \<in> set (butlast (Sets (snd (IPFix_Len i)))). unat (SetLength s) = IPFixSet_size s"
proof
  fix s assume "s \<in> set (butlast (Sets (snd (IPFix_Len i))))"
  then obtain s0 where s0: "s0 \<in> set (butlast (Sets i))" and s: "s = refresh s0"
    by (auto simp: Sets_after_Len map_butlast [symmetric])
  with assms have "IPFixSet_size s0 \<le> 65535" by blast
  then have "unat (of_nat (IPFixSet_size s0) :: uint16) = IPFixSet_size s0"
    by (simp add: unat_of_nat)
  with s show "unat (SetLength s) = IPFixSet_size s"
    by (simp add: refresh_eq IPFixSet_size_def)
qed

lemma serialize_exact:
  assumes v: "Ver i = 9 \<or> Ver i = 10"
    and r: "PrependBytes (fst (IPFix_Len i)) = Inr data"
    and l: "length data = fst (IPFix_Len i)"
    and f: "\<forall>s \<in> set (butlast (Sets i)). IPFixSet_size s \<le> 65535"
  shows "IPFix_SerializeTo i PrependBytes =
           Inr (snd (IPFix_Len i), packet_bytes (snd (IPFix_Len i)))"
proof -
  let ?i = "snd (IPFix_Len i)"
  let ?n = "sum_list (map IPFixSet_size (Sets ?i))"
  note fit = fit_after_Len [OF f]
  from v show ?thesis
  proof
    assume v9: "Ver i = 9"
    let ?d = "header_v9 ?i @ drop 20 data"
    from v9 l have n: "length data = 20 + ?n"
      by (simp add: fst_IPFix_Len header_len_def sizes_after_Len)
    then have "20 + ?n \<le> length ?d" by simp
    from Sets_encode_loop_ok [OF this fit] n
    have "Sets_encode_loop (Sets ?i) 20 ?d = Inr (packet_bytes ?i)"
      by (simp add: packet_bytes_def v9 Ver_after_Len)
    with n show ?thesis
      by (simp add: SerializeTo_v9 [OF v9] r header_v9_written)
  next
    assume v10: "Ver i = 10"
    let ?d = "header_v10 ?i @ drop 16 data"
    from v10 l have n: "length data = 16 + ?n"
      by (simp add: fst_IPFix_Len header_len_def sizes_after_Len)
    then have "16 + ?n \<le> length ?d" by simp
    from Sets_encode_loop_ok [OF this fit] n
    have "Sets_encode_loop (Sets ?i) 16 ?d = Inr (packet_bytes ?i)"
      by (simp add: packet_bytes_def v10 Ver_after_Len)
    with n show ?thesis
      by (simp add: SerializeTo_v10 [OF v10] r header_v10_written)
  qed
qed

section \<open>The stored lengths after \<open>Len\<close>\<close>

lemma Uint16_be16: "Uint16 (be16 v) = Inr v"
proof -
  have "ucast (ucast v :: byte) OR push_bit 8 (ucast (ucast (drop_bit 8 v) :: byte)) = v"
    by (rule bit_eqI) (auto simp: bit_simps)
  then show ?thesis by (simp add: Uint16_def be16_def)
qed

lemma refresh_idem: "refresh (refresh s) = refresh s"
  by (simp add: refresh_eq IPFixSet_size_def)

lemma IPFixSet_Len_refresh: "IPFixSet_Len s = (IPFixSet_size s, refresh s)"
  by (simp add: IPFixSet_Len_eq refresh_eq)

lemma SetLength_refresh: "SetLength (refresh s) = of_nat (IPFixSet_size s)"
  by (simp add: refresh_eq)

lemma SetID_refresh: "SetID (refresh s) = SetID s"
  by (simp add: refresh_eq)

lemma SetEntries_refresh: "SetEntries (refresh s) = SetEntries s"
  by (simp add: refresh_eq)

lemma bytes_refresh:
  "IPFixSet_bytes (refresh s) =
     be16 (SetID s) @ be16 (of_nat (IPFixSet_size s)) @
     concat (map IPFixSetEntry_bytes (SetEntries s))"
  by (simp only: IPFixSet_bytes_def SetLength_refresh SetID_refresh SetEntries_refresh)

lemma header_len_after_Len: "header_len (snd (IPFix_Len i)) = header_len i"
  by (simp add: header_len_def Ver_after_Len)

lemma IPFix_Len_twice: "IPFix_Len (snd (IPFix_Len i)) = IPFix_Len i"
proof -
  have "map refresh (Sets (snd (IPFix_Len i))) = Sets (snd (IPFix_Len i))"
    by (simp add: Sets_after_Len refresh_idem)
  then show ?thesis
    by (simp add: IPFix_Len_eq [of "snd (IPFix_Len i)"] header_len_after_Len sizes_after_Len)
      (simp add: IPFix_Len_eq)
qed

section \<open>The concrete inputs\<close>

lemma Len_enterprise_field: "IPFixField_Len enterprise_field = 8"
  by (simp add: IPFixField_Len_def IPFixField_IsEnterprise_def enterprise_field_def)

lemma bytes_enterprise_field:
  "IPFixField_bytes enterprise_field = [0x80, 0x05, 0x00, 0x04, 0x00, 0x00, 0x30, 0x39]"
  by (simp add: IPFixField_bytes_def IPFixField_IsEnterprise_def enterprise_field_def
      be16_def be32_def)

lemma size_oversize_set: "IPFixSet_size oversize_set = 65536"
  by (simp add: IPFixSet_size_def oversize_set_def IPFixRecord_Len_def)

lemma bytes_oversize_set:
  "IPFixSet_bytes (refresh oversize_set) = [1, 0, 0, 0] @ replicate 65532 0"
  by (simp add: refresh_eq size_oversize_set IPFixSet_bytes_def be16_def)
    (simp add: oversize_set_def be16_def)

lemma size_small_set: "IPFixSet_size small_set = 4"
  by (simp add: IPFixSet_size_def small_set_def)

lemma bytes_small_set: "IPFixSet_bytes (refresh small_set) = [1, 1, 0, 4]"
  by (simp add: bytes_refresh size_small_set)
    (simp add: small_set_def be16_def)

lemma Len_oversize_packet: "fst (IPFix_Len oversize_packet) = 65556"
  by (simp add: fst_IPFix_Len header_len_def)
    (simp add: oversize_packet_def size_oversize_set size_small_set)

lemma Sets_oversize_packet:
  "Sets (snd (IPFix_Len oversize_packet)) = [refresh oversize_set, refresh small_set]"
  by (simp add: Sets_after_Len) (simp add: oversize_packet_def)

lemma header_oversize_packet:
  "header_v10 (snd (IPFix_Len oversize_packet)) =
     [0x00, 0x0A, 0x00, 0x14, 0x00, 0x00, 0x03, 0xE8, 0x00, 0x00, 0x00, 0x01,
      0x00, 0x00, 0x00, 0x64]"
  by (simp add: header_v10_def IPFix_Len_eq header_len_def)
    (simp add: oversize_packet_def size_oversize_set size_small_set be16_def be32_def)

lemma serialize_oversize_packet:
  "IPFix_SerializeTo oversize_packet (reserve_fill c) =
     Inr (snd (IPFix_Len oversize_packet),
          header_v10 (snd (IPFix_Len oversize_packet)) @
          [1, 1, 0, 4] @ replicate 65532 0 @ replicate 4 c)"
proof -
  let ?i = "snd (IPFix_Len oversize_packet)"
  let ?h = "header_v10 ?i"
  let ?d0 = "?h @ drop 16 (replicate 65556 c)"
  let ?d1 = "?h @ ([1, 0, 0, 0] @ replicate 65532 0) @ replicate 4 c"
  let ?d2 = "?h @ [1, 1, 0, 4] @ replicate 65532 0 @ replicate 4 c"
  have v: "Ver oversize_packet = 10"
    by (simp add: oversize_packet_def)
  have "IPFixSet_encode (refresh oversize_set) (drop 16 ?d0) =
      Inr (IPFixSet_bytes (refresh oversize_set) @
           drop (IPFixSet_size (refresh oversize_set)) (drop 16 ?d0))"
    by (rule set_encode_ok) (simp add: size_oversize_set)
  then have "on_tail ?d0 16 (IPFixSet_encode (refresh oversize_set)) =
      Inr (take 16 ?d0 @ IPFixSet_bytes (refresh oversize_set) @ drop (16 + 65536) ?d0)"
    by (intro on_tail_prefix) (simp_all add: size_oversize_set)
  then have s1: "on_tail ?d0 16 (IPFixSet_encode (refresh oversize_set)) = Inr ?d1"
    by (simp add: bytes_oversize_set)
  have "IPFixSet_encode (refresh small_set) (drop 16 ?d1) =
      Inr (IPFixSet_bytes (refresh small_set) @
           drop (IPFixSet_size (refresh small_set)) (drop 16 ?d1))"
    by (rule set_encode_ok) (simp add: size_small_set)
  then have "on_tail ?d1 16 (IPFixSet_encode (refresh small_set)) =
      Inr (take 16 ?d1 @ IPFixSet_bytes (refresh small_set) @ drop (16 + 4) ?d1)"
    by (intro on_tail_prefix) (simp_all add: size_small_set)
  then have s2: "on_tail ?d1 16 (IPFixSet_encode (refresh small_set)) = Inr ?d2"
    by (simp add: bytes_small_set)
  have o: "unat (SetLength (refresh oversize_set)) = 0"
    by (simp add: SetLength_refresh size_oversize_set unat_of_nat)
  have "Sets_encode_loop (Sets ?i) 16 ?d0 = Inr ?d2"
    by (simp only: Sets_oversize_packet Sets_encode_loop.simps s1 and_then_Inr o
        add_0_right s2)
  then show ?thesis
    by (simp add: SerializeTo_v10 [OF v] Len_oversize_packet reserve_fill_def
        header_v10_written)
qed

lemma PktLength_after_Len: "PktLength (snd (IPFix_Len i)) = of_nat (fst (IPFix_Len i))"
  by (simp add: IPFix_Len_eq)

lemma fields_after_Len:
  "Timestamp (snd (IPFix_Len i)) = Timestamp i"
  "FlowSeq (snd (IPFix_Len i)) = FlowSeq i"
  "DomainID (snd (IPFix_Len i)) = DomainID i"
  "SysUpTime (snd (IPFix_Len i)) = SysUpTime i"
  "SourceID (snd (IPFix_Len i)) = SourceID i"
  by (simp_all add: IPFix_Len_eq)

lemma total_entries_after_Len: "total_entries (snd (IPFix_Len i)) = total_entries i"
  by (simp add: total_entries_def Sets_after_Len comp_def SetEntries_refresh)

lemma fst_IPFixSet_Len: "fst (IPFixSet_Len s) = IPFixSet_size s"
  by (simp add: IPFixSet_Len_refresh)

text \<open>Scenario A\<close>

lemma Len_packet_A: "IPFix_Len packet_A = (16, packet_A\<lparr>PktLength := 16\<rparr>)"
  by (simp add: IPFix_Len_eq header_len_def) (simp add: packet_A_def)

lemma header_packet_A:
  "header_v10 (packet_A\<lparr>PktLength := 16\<rparr>) =
     [0x00, 0x0A, 0x00, 0x10, 0x00, 0x00, 0x03, 0xE8, 0x00, 0x00, 0x00, 0x01,
      0x00, 0x00, 0x00, 0x64]"
  by (simp add: header_v10_def packet_A_def be16_def be32_def)

lemma serialize_packet_A:
  assumes "PrependBytes 16 = Inr data" and "length data = 16"
  shows "IPFix_SerializeTo packet_A PrependBytes =
     Inr (packet_A\<lparr>PktLength := 16\<rparr>,
          [0x00, 0x0A, 0x00, 0x10, 0x00, 0x00, 0x03, 0xE8, 0x00, 0x00, 0x00, 0x01,
           0x00, 0x00, 0x00, 0x64])"
proof -
  have "IPFix_SerializeTo packet_A PrependBytes =
      Inr (snd (IPFix_Len packet_A), packet_bytes (snd (IPFix_Len packet_A)))"
    using assms by (intro serialize_exact) (simp_all add: Len_packet_A, simp_all add: packet_A_def)
  then show ?thesis
    by (simp add: Len_packet_A packet_bytes_def header_packet_A) (simp add: packet_A_def)
qed

text \<open>Scenario B\<close>

lemma size_data_set_B: "IPFixSet_size data_set_B = 8"
  by (simp add: IPFixSet_size_def data_set_B_def record_1_def IPFixRecord_Len_def)

lemma bytes_data_set_B: "IPFixSet_bytes (refresh data_set_B) = [1, 0, 0, 8, 1, 2, 3, 4]"
  by (simp add: bytes_refresh size_data_set_B)
    (simp add: data_set_B_def record_1_def be16_def)

lemma Len_packet_B: "fst (IPFix_Len packet_B) = 24"
  by (simp add: fst_IPFix_Len header_len_def)
    (simp add: packet_B_def size_data_set_B)

lemma bytes_packet_B:
  "packet_bytes (snd (IPFix_Len packet_B)) =
     [0x00, 0x0A, 0x00, 0x18, 0x00, 0x00, 0x03, 0xE8, 0x00, 0x00, 0x00, 0x01,
      0x00, 0x00, 0x00, 0x64, 0x01, 0x00, 0x00, 0x08, 0x01, 0x02, 0x03, 0x04]"
proof -
  have "Sets (snd (IPFix_Len packet_B)) = [refresh data_set_B]"
    by (simp add: Sets_after_Len) (simp add: packet_B_def)
  moreover have "header_v10 (snd (IPFix_Len packet_B)) =
     [0x00, 0x0A, 0x00, 0x18, 0x00, 0x00, 0x03, 0xE8, 0x00, 0x00, 0x00, 0x01,
      0x00, 0x00, 0x00, 0x64]"
    by (simp add: header_v10_def PktLength_after_Len Len_packet_B fields_after_Len
        Ver_after_Len)
      (simp add: packet_B_def be16_def be32_def)
  moreover have "Ver (snd (IPFix_Len packet_B)) = 10"
    by (simp add: Ver_after_Len) (simp add: packet_B_def)
  ultimately show ?thesis
    by (simp add: packet_bytes_def bytes_data_set_B)
qed

text \<open>Scenario D\<close>

lemma total_entries_packet_D: "total_entries packet_D = 3"
  by (simp add: total_entries_def packet_D_def)

lemma Len_packet_D: "fst (IPFix_Len packet_D) = 40"
  by (simp add: fst_IPFix_Len header_len_def)
    (simp add: packet_D_def IPFixSet_size_def record_1_def IPFixRecord_Len_def)

text \<open>The crowded packet\<close>

lemma total_entries_crowded_packet: "total_entries crowded_packet = 65536"
  by (simp add: total_entries_def crowded_packet_def)

lemma Len_crowded_packet: "fst (IPFix_Len crowded_packet) = 24"
  by (simp add: fst_IPFix_Len header_len_def)
    (simp add: crowded_packet_def IPFixSet_size_def IPFixRecord_Len_def sum_list_replicate)

lemma bytes_crowded_packet:
  "packet_bytes (snd (IPFix_Len crowded_packet)) =
     [0x00, 0x09, 0x00, 0x00, 0x00, 0x00, 0x13, 0x88, 0x00, 0x00, 0x03, 0xE8,
      0x00, 0x00, 0x00, 0x01, 0x00, 0x00, 0x00, 0x07, 0x01, 0x00, 0x00, 0x04]"
proof -
  let ?s = "\<lparr>SetID = 256, SetLength = 0, SetEntries = replicate 65536 (Record \<lparr>Data = []\<rparr>)\<rparr>"
  have sz: "IPFixSet_size ?s = 4"
    by (simp add: IPFixSet_size_def IPFixRecord_Len_def sum_list_replicate)
  have "concat (replicate n []) = ([] :: byte list)" for n
    by (induction n) simp_all
  then have "IPFixSet_bytes (refresh ?s) = [1, 0, 0, 4]"
    by (simp add: bytes_refresh sz) (simp add: be16_def)
  moreover have "Sets (snd (IPFix_Len crowded_packet)) = [refresh ?s]"
    by (simp add: Sets_after_Len) (simp add: crowded_packet_def)
  moreover have "header_v9 (snd (IPFix_Len crowded_packet)) =
     [0x00, 0x09, 0x00, 0x00, 0x00, 0x00, 0x13, 0x88, 0x00, 0x00, 0x03, 0xE8,
      0x00, 0x00, 0x00, 0x01, 0x00, 0x00, 0x00, 0x07]"
    by (simp add: header_v9_def total_entries_after_Len total_entries_crowded_packet
        fields_after_Len Ver_after_Len)
      (simp add: crowded_packet_def be16_def be32_def)
  moreover have "Ver (snd (IPFix_Len crowded_packet)) = 9"
    by (simp add: Ver_after_Len) (simp add: crowded_packet_def)
  ultimately show ?thesis
    by (simp add: packet_bytes_def)
qed

lemma serialize_crowded_packet:
  "IPFix_SerializeTo crowded_packet (reserve_fill c) =
     Inr (snd (IPFix_Len crowded_packet),
          [0x00, 0x09, 0x00, 0x00, 0x00, 0x00, 0x13, 0x88, 0x00, 0x00, 0x03, 0xE8,
           0x00, 0x00, 0x00, 0x01, 0x00, 0x00, 0x00, 0x07, 0x01, 0x00, 0x00, 0x04])"
proof -
  have "IPFix_SerializeTo crowded_packet (reserve_fill c) =
      Inr (snd (IPFix_Len crowded_packet), packet_bytes (snd (IPFix_Len crowded_packet)))"
    by (rule serialize_exact [where data = "replicate 24 c"])
      (simp_all add: Len_crowded_packet reserve_fill_def, simp_all add: crowded_packet_def)
  then show ?thesis
    by (simp only: bytes_crowded_packet)
qed

lemma replicate_4: "replicate 4 x = [x, x, x, x]"
  by (simp add: numeral_eq_Suc)

lemma take2_drop2_header_v9:
  assumes "take 20 out = header_v9 i"
  shows "take 2 (drop 2 out) = be16 (of_nat (total_entries i))"
proof -
  have "take 2 (drop 2 out) = take 2 (drop 2 (take 20 out))"
    by (simp add: drop_take)
  also have "\<dots> = be16 (of_nat (total_entries i))"
    by (simp add: assms header_v9_def)
  finally show ?thesis .
qed

lemma sum_fst_IPFixSet_Len:
  "sum_list (map (\<lambda>s. fst (IPFixSet_Len s)) ss) = sum_list (map IPFixSet_size ss)"
  by (simp add: fst_IPFixSet_Len)

lemma header_bytes_B:
  "be16 10 @ be16 24 @ be32 1000 @ be32 1 @ be32 100 =
     [0x00, 0x0A, 0x00, 0x18, 0x00, 0x00, 0x03, 0xE8, 0x00, 0x00, 0x00, 0x01,
      0x00, 0x00, 0x00, 0x64]"
  by (simp add: be16_def be32_def)

lemma mod_uint16_neq: "65535 < n \<Longrightarrow> n mod 65536 \<noteq> n" for n :: nat
proof -
  assume "65535 < n"
  moreover have "n mod 65536 < 65536" by simp
  ultimately show ?thesis by linarith
qed

section \<open>The claims\<close>

subsection \<open>C1: the version-10 header\<close>

text \<open>
  Claim C1, as amended. For a version-10 packet whose reservation succeeds with
  \<open>Len\<close> bytes, \<open>SerializeTo\<close> returns with the first 16 bytes of the region holding the
  version at \<open>[0:2]\<close>, the stored length \<open>uint16(Len)\<close> at \<open>[2:4]\<close>, the timestamp at
  \<open>[4:8]\<close>, the flow sequence number at \<open>[8:12]\<close> and the domain id at \<open>[12:16]\<close>, each
  big-endian. When every set but the last has a byte length of at most 65535, the bytes
  from offset 16 on are the encodings of the sets, in order. The packet of scenario A
  (version 10, timestamp 1000, flow sequence 1, domain id 100, no sets) serializes to
  exactly \<open>00 0A 00 10 00 00 03 E8 00 00 00 01 00 00 00 64\<close>, whatever the reserved
  16 bytes held before.
\<close>

theorem serialize_v10_layout:
  assumes "Ver i = 10"
    and "PrependBytes (fst (IPFix_Len i)) = Inr data"
    and "length data = fst (IPFix_Len i)"
    and "PrependBytes' 16 = Inr data'"
    and "length data' = 16"
  shows "(\<exists>out. IPFix_SerializeTo i PrependBytes = Inr (snd (IPFix_Len i), out) \<and>
           take 16 out =
             be16 10 @ be16 (of_nat (fst (IPFix_Len i))) @ be32 (Timestamp i) @
             be32 (FlowSeq i) @ be32 (DomainID i) \<and>
           ((\<forall>s \<in> set (butlast (Sets i)). fst (IPFixSet_Len s) \<le> 65535) \<longrightarrow>
              drop 16 out = concat (map IPFixSet_bytes (Sets (snd (IPFix_Len i)))))) \<and>
         IPFix_SerializeTo packet_A PrependBytes' =
           Inr (packet_A\<lparr>PktLength := 16\<rparr>,
                [0x00, 0x0A, 0x00, 0x10, 0x00, 0x00, 0x03, 0xE8, 0x00, 0x00, 0x00, 0x01,
                 0x00, 0x00, 0x00, 0x64])"
proof -
  let ?i = "snd (IPFix_Len i)"
  from assms(1-3) serialize_runs_v10 [of i PrependBytes data]
  obtain out where out: "IPFix_SerializeTo i PrependBytes = Inr (?i, out)"
    "take 16 out = header_v10 ?i"
    by blast
  have h: "header_v10 ?i =
      be16 10 @ be16 (of_nat (fst (IPFix_Len i))) @ be32 (Timestamp i) @
      be32 (FlowSeq i) @ be32 (DomainID i)"
    by (simp add: header_v10_def PktLength_after_Len fields_after_Len Ver_after_Len assms(1))
  have "drop 16 out = concat (map IPFixSet_bytes (Sets ?i))"
    if "\<forall>s \<in> set (butlast (Sets i)). fst (IPFixSet_Len s) \<le> 65535"
  proof -
    from that have "\<forall>s \<in> set (butlast (Sets i)). IPFixSet_size s \<le> 65535"
      by (simp add: fst_IPFixSet_Len)
    with assms(1-3) have "IPFix_SerializeTo i PrependBytes = Inr (?i, packet_bytes ?i)"
      by (intro serialize_exact) simp_all
    with out have "out = packet_bytes ?i" by simp
    then show ?thesis
      by (simp add: packet_bytes_def Ver_after_Len assms(1))
  qed
  with out h have "\<exists>out. IPFix_SerializeTo i PrependBytes = Inr (snd (IPFix_Len i), out) \<and>
           take 16 out =
             be16 10 @ be16 (of_nat (fst (IPFix_Len i))) @ be32 (Timestamp i) @
             be32 (FlowSeq i) @ be32 (DomainID i) \<and>
           ((\<forall>s \<in> set (butlast (Sets i)). fst (IPFixSet_Len s) \<le> 65535) \<longrightarrow>
              drop 16 out = concat (map IPFixSet_bytes (Sets (snd (IPFix_Len i)))))"
    by simp
  moreover from assms(4,5) have "IPFix_SerializeTo packet_A PrependBytes' =
           Inr (packet_A\<lparr>PktLength := 16\<rparr>,
                [0x00, 0x0A, 0x00, 0x10, 0x00, 0x00, 0x03, 0xE8, 0x00, 0x00, 0x00, 0x01,
                 0x00, 0x00, 0x00, 0x64])"
    by (rule serialize_packet_A)
  ultimately show ?thesis by (rule conjI)
qed

text \<open>
  The theorem at the packet of scenario B (scenario A plus one data set with id 256
  holding the record \<open>01 02 03 04\<close>) and, for its last part, at scenario A: the header
  carries the length \<open>00 18\<close>, the set follows as \<open>01 00 00 08 01 02 03 04\<close>.
\<close>

theorem serialize_v10_layout_witness:
  "Ver packet_B = 10 \<and>
   reserve_fill 0x00 (fst (IPFix_Len packet_B)) = Inr (replicate 24 0x00) \<and>
   length (replicate 24 (0x00 :: byte)) = fst (IPFix_Len packet_B) \<and>
   reserve_fill 0x00 16 = Inr (replicate 16 0x00) \<and>
   length (replicate 16 (0x00 :: byte)) = 16 \<and>
   (\<exists>out. IPFix_SerializeTo packet_B (reserve_fill 0x00) = Inr (snd (IPFix_Len packet_B), out) \<and>
      take 16 out =
        [0x00, 0x0A, 0x00, 0x18, 0x00, 0x00, 0x03, 0xE8, 0x00, 0x00, 0x00, 0x01,
         0x00, 0x00, 0x00, 0x64] \<and>
      drop 16 out = [0x01, 0x00, 0x00, 0x08, 0x01, 0x02, 0x03, 0x04]) \<and>
   IPFix_SerializeTo packet_A (reserve_fill 0x00) =
     Inr (packet_A\<lparr>PktLength := 16\<rparr>,
          [0x00, 0x0A, 0x00, 0x10, 0x00, 0x00, 0x03, 0xE8, 0x00, 0x00, 0x00, 0x01,
           0x00, 0x00, 0x00, 0x64])"
proof -
  have v: "Ver packet_B = 10"
    by (simp add: packet_B_def)
  have r: "reserve_fill 0x00 (fst (IPFix_Len packet_B)) = Inr (replicate 24 0x00)"
    by (simp add: reserve_fill_def Len_packet_B)
  have l: "length (replicate 24 (0x00 :: byte)) = fst (IPFix_Len packet_B)"
    by (simp add: Len_packet_B)
  have r': "reserve_fill 0x00 16 = Inr (replicate 16 0x00)"
    by (simp add: reserve_fill_def)
  have l': "length (replicate 16 (0x00 :: byte)) = 16"
    by simp
  have s: "Sets (snd (IPFix_Len packet_B)) = [refresh data_set_B]"
    by (simp add: Sets_after_Len) (simp add: packet_B_def)
  have t: "Timestamp packet_B = 1000" "FlowSeq packet_B = 1" "DomainID packet_B = 100"
    "butlast (Sets packet_B) = []"
    by (simp_all add: packet_B_def)
  from serialize_v10_layout [of packet_B "reserve_fill 0x00" "replicate 24 0x00"
      "reserve_fill 0x00" "replicate 16 0x00"] v r l r'
  show ?thesis
    by (simp add: Len_packet_B s bytes_data_set_B t header_bytes_B)
qed

text \<open>
  Claim C1 as it was stated fails on the version-10 packet \<open>oversize_packet\<close>, whose
  first set holds one record of 65532 bytes and so has byte length 65536: its stored
  length is \<open>uint16(65536) = 0\<close>, the cursor stays at 16, and the second set (id 257, no
  entries, encoding \<open>01 01 00 04\<close>) is written over the first four bytes of the first
  set (\<open>01 00 00 00\<close>). The region is not the header followed by the two sets in order,
  and its last four bytes are never written.
\<close>

theorem serialize_v10_layout_counterexample:
  "IPFix_SerializeTo oversize_packet (reserve_fill 0) =
     Inr (snd (IPFix_Len oversize_packet),
          [0x00, 0x0A, 0x00, 0x14, 0x00, 0x00, 0x03, 0xE8, 0x00, 0x00, 0x00, 0x01,
           0x00, 0x00, 0x00, 0x64] @
          [1, 1, 0, 4] @ replicate 65532 0 @ [0, 0, 0, 0]) \<and>
   IPFixSet_bytes (Sets (snd (IPFix_Len oversize_packet)) ! 0) = [1, 0, 0, 0] @ replicate 65532 0 \<and>
   IPFixSet_bytes (Sets (snd (IPFix_Len oversize_packet)) ! 1) = [1, 1, 0, 4] \<and>
   IPFix_SerializeTo oversize_packet (reserve_fill 0) \<noteq>
     Inr (snd (IPFix_Len oversize_packet), packet_bytes (snd (IPFix_Len oversize_packet)))"
proof -
  have "packet_bytes (snd (IPFix_Len oversize_packet)) =
      header_v10 (snd (IPFix_Len oversize_packet)) @
      ([1, 0, 0, 0] @ replicate 65532 0) @ [1, 1, 0, 4]"
    by (simp add: packet_bytes_def Sets_oversize_packet bytes_oversize_set bytes_small_set
        Ver_after_Len)
      (simp add: oversize_packet_def)
  then show ?thesis
    by (simp add: serialize_oversize_packet Sets_oversize_packet bytes_oversize_set
        bytes_small_set header_oversize_packet replicate_4)
qed

subsection \<open>C2: the version-9 count\<close>

text \<open>
  Claim C2, as amended. For every version-9 packet whose reservation succeeds with
  \<open>Len\<close> bytes, \<open>SerializeTo\<close> writes at bytes \<open>[2:4]\<close> the total number of set entries,
  summed over all sets of the packet, converted to \<open>uint16\<close> (that is, modulo 65536) and
  big-endian: reading the two bytes back gives \<open>uint16(total)\<close>, which is the total itself
  whenever the total is at most 65535. A packet with 3 entries in total has \<open>00 03\<close>
  there, however the entries are grouped into sets.
\<close>

theorem serialize_v9_count:
  assumes "Ver i = 9"
    and "PrependBytes (fst (IPFix_Len i)) = Inr data"
    and "length data = fst (IPFix_Len i)"
  shows "\<exists>out. IPFix_SerializeTo i PrependBytes = Inr (snd (IPFix_Len i), out) \<and>
           take 2 (drop 2 out) = be16 (of_nat (total_entries i)) \<and>
           Uint16 (take 2 (drop 2 out)) = Inr (of_nat (total_entries i)) \<and>
           unat (of_nat (total_entries i) :: uint16) = total_entries i mod 65536 \<and>
           (total_entries i \<le> 65535 \<longrightarrow>
              unat (of_nat (total_entries i) :: uint16) = total_entries i) \<and>
           (total_entries i = 3 \<longrightarrow> take 2 (drop 2 out) = [0x00, 0x03])"
proof -
  let ?i = "snd (IPFix_Len i)"
  from assms serialize_runs_v9 [of i PrependBytes data]
  obtain out where out: "IPFix_SerializeTo i PrependBytes = Inr (?i, out)"
    "take 20 out = header_v9 ?i"
    by blast
  from out(2) have c: "take 2 (drop 2 out) = be16 (of_nat (total_entries i))"
    by (simp add: take2_drop2_header_v9 total_entries_after_Len)
  moreover have "total_entries i = 3 \<longrightarrow> take 2 (drop 2 out) = [0x00, 0x03]"
    by (simp add: c be16_def)
  ultimately show ?thesis
    using out(1) by (simp add: Uint16_be16 unat_of_nat)
qed

text \<open>
  The theorem at the packet of scenario D: version 9, two sets holding two records and
  one record.
\<close>

theorem serialize_v9_count_witness:
  "Ver packet_D = 9 \<and>
   reserve_fill 0xFF (fst (IPFix_Len packet_D)) = Inr (replicate 40 0xFF) \<and>
   length (replicate 40 (0xFF :: byte)) = fst (IPFix_Len packet_D) \<and>
   total_entries packet_D = 3 \<and>
   (\<exists>out. IPFix_SerializeTo packet_D (reserve_fill 0xFF) = Inr (snd (IPFix_Len packet_D), out) \<and>
      take 2 (drop 2 out) = [0x00, 0x03])"
proof -
  have v: "Ver packet_D = 9"
    by (simp add: packet_D_def)
  have r: "reserve_fill 0xFF (fst (IPFix_Len packet_D)) = Inr (replicate 40 0xFF)"
    by (simp add: reserve_fill_def Len_packet_D)
  have l: "length (replicate 40 (0xFF :: byte)) = fst (IPFix_Len packet_D)"
    by (simp add: Len_packet_D)
  from serialize_v9_count [of packet_D "reserve_fill 0xFF" "replicate 40 0xFF"] v r l
  show ?thesis
    by (auto simp: total_entries_packet_D)
qed

text \<open>
  Claim C2 as it was stated fails on the version-9 packet \<open>crowded_packet\<close>, whose one
  set holds 65536 empty records: the total number of entries is 65536, and bytes
  \<open>[2:4]\<close> of the output are \<open>00 00\<close>, the count 0.
\<close>

theorem serialize_v9_count_counterexample:
  "IPFix_SerializeTo crowded_packet (reserve_fill 0xFF) =
     Inr (snd (IPFix_Len crowded_packet),
          [0x00, 0x09, 0x00, 0x00, 0x00, 0x00, 0x13, 0x88, 0x00, 0x00, 0x03, 0xE8,
           0x00, 0x00, 0x00, 0x01, 0x00, 0x00, 0x00, 0x07, 0x01, 0x00, 0x00, 0x04]) \<and>
   total_entries crowded_packet = 65536 \<and>
   Uint16 [0x00, 0x00] = Inr 0"
  by (simp add: serialize_crowded_packet total_entries_crowded_packet Uint16_def)

subsection \<open>C3: the number of bytes written\<close>

text \<open>
  Claim C3, as amended. For every packet of version 9 or 10 whose reservation succeeds,
  \<open>SerializeTo\<close> asks for \<open>Len\<close> bytes, returns without error, and leaves a region of
  exactly \<open>Len\<close> bytes, where \<open>Len\<close> is the header length (16 for version 10, 20 for
  version 9) plus the sum of the byte lengths of the sets; the header is at the front of
  the region. When every set but the last has a byte length of at most 65535, it writes
  every one of these bytes: the region is the header followed by the encodings of the
  sets, whatever it held before.
\<close>

theorem serialize_writes_Len:
  assumes "Ver i = 9 \<or> Ver i = 10"
    and "PrependBytes (fst (IPFix_Len i)) = Inr data"
    and "length data = fst (IPFix_Len i)"
  shows "\<exists>out. IPFix_SerializeTo i PrependBytes = Inr (snd (IPFix_Len i), out) \<and>
           length out = fst (IPFix_Len i) \<and>
           fst (IPFix_Len i) =
             (if Ver i = 10 then 16 else 20) +
             sum_list (map (\<lambda>s. fst (IPFixSet_Len s)) (Sets i)) \<and>
           take (if Ver i = 10 then 16 else 20) out =
             (if Ver i = 10 then header_v10 (snd (IPFix_Len i))
              else header_v9 (snd (IPFix_Len i))) \<and>
           ((\<forall>s \<in> set (butlast (Sets i)). fst (IPFixSet_Len s) \<le> 65535) \<longrightarrow>
              out = packet_bytes (snd (IPFix_Len i)))"
proof -
  let ?i = "snd (IPFix_Len i)"
  let ?h = "if Ver i = 10 then 16 else 20"
  have "\<exists>out. IPFix_SerializeTo i PrependBytes = Inr (?i, out) \<and>
      length out = fst (IPFix_Len i) \<and>
      take ?h out = (if Ver i = 10 then header_v10 ?i else header_v9 ?i)"
  proof (cases "Ver i = 10")
    case True
    with assms serialize_runs_v10 [of i PrependBytes data] show ?thesis
      by simp
  next
    case False
    with assms have "Ver i = 9" by simp
    with assms serialize_runs_v9 [of i PrependBytes data] False show ?thesis
      by simp
  qed
  then obtain out where out: "IPFix_SerializeTo i PrependBytes = Inr (?i, out)"
    "length out = fst (IPFix_Len i)"
    "take ?h out = (if Ver i = 10 then header_v10 ?i else header_v9 ?i)"
    by blast
  from assms(1) have n: "fst (IPFix_Len i) =
      ?h + sum_list (map (\<lambda>s. fst (IPFixSet_Len s)) (Sets i))"
    by (auto simp: fst_IPFix_Len header_len_def sum_fst_IPFixSet_Len)
  have "out = packet_bytes ?i"
    if "\<forall>s \<in> set (butlast (Sets i)). fst (IPFixSet_Len s) \<le> 65535"
  proof -
    from that have "\<forall>s \<in> set (butlast (Sets i)). IPFixSet_size s \<le> 65535"
      by (simp add: fst_IPFixSet_Len)
    with assms have "IPFix_SerializeTo i PrependBytes = Inr (?i, packet_bytes ?i)"
      by (intro serialize_exact) simp_all
    with out(1) show ?thesis by simp
  qed
  with out n show ?thesis by blast
qed

text \<open>The theorem at the packet of scenario B: 24 bytes, all written.\<close>

theorem serialize_writes_Len_witness:
  "Ver packet_B = 10 \<and>
   reserve_fill 0xFF (fst (IPFix_Len packet_B)) = Inr (replicate 24 0xFF) \<and>
   length (replicate 24 (0xFF :: byte)) = fst (IPFix_Len packet_B) \<and>
   butlast (Sets packet_B) = [] \<and>
   fst (IPFix_Len packet_B) = 24 \<and>
   IPFix_SerializeTo packet_B (reserve_fill 0xFF) =
     Inr (snd (IPFix_Len packet_B),
          [0x00, 0x0A, 0x00, 0x18, 0x00, 0x00, 0x03, 0xE8, 0x00, 0x00, 0x00, 0x01,
           0x00, 0x00, 0x00, 0x64, 0x01, 0x00, 0x00, 0x08, 0x01, 0x02, 0x03, 0x04])"
proof -
  have v: "Ver packet_B = 10"
    by (simp add: packet_B_def)
  have r: "reserve_fill 0xFF (fst (IPFix_Len packet_B)) = Inr (replicate 24 0xFF)"
    by (simp add: reserve_fill_def Len_packet_B)
  have l: "length (replicate 24 (0xFF :: byte)) = fst (IPFix_Len packet_B)"
    by (simp add: Len_packet_B)
  have b: "butlast (Sets packet_B) = []"
    by (simp add: packet_B_def)
  from serialize_writes_Len [of packet_B "reserve_fill 0xFF" "replicate 24 0xFF"] v r l
  have "IPFix_SerializeTo packet_B (reserve_fill 0xFF) =
      Inr (snd (IPFix_Len packet_B), packet_bytes (snd (IPFix_Len packet_B)))"
    by (auto simp: b)
  with v r l b show ?thesis
    by (simp add: bytes_packet_B Len_packet_B)
qed

text \<open>
  Claim C3 as it was stated fails on \<open>oversize_packet\<close>, of version 10 and byte length
  \<open>16 + 65536 + 4 = 65556\<close>: the second set is written at offset 16 and not at 65552, and
  the last four bytes of the reserved region are not written. They hold what the buffer
  handed out, \<open>FF\<close> in one run and \<open>55\<close> in the other.
\<close>

theorem serialize_writes_Len_counterexample:
  "fst (IPFix_Len oversize_packet) = 65556 \<and>
   IPFix_SerializeTo oversize_packet (reserve_fill 0xFF) =
     Inr (snd (IPFix_Len oversize_packet),
          [0x00, 0x0A, 0x00, 0x14, 0x00, 0x00, 0x03, 0xE8, 0x00, 0x00, 0x00, 0x01,
           0x00, 0x00, 0x00, 0x64] @
          [1, 1, 0, 4] @ replicate 65532 0 @ [0xFF, 0xFF, 0xFF, 0xFF]) \<and>
   IPFix_SerializeTo oversize_packet (reserve_fill 0x55) =
     Inr (snd (IPFix_Len oversize_packet),
          [0x00, 0x0A, 0x00, 0x14, 0x00, 0x00, 0x03, 0xE8, 0x00, 0x00, 0x00, 0x01,
           0x00, 0x00, 0x00, 0x64] @
          [1, 1, 0, 4] @ replicate 65532 0 @ [0x55, 0x55, 0x55, 0x55])"
  by (simp add: Len_oversize_packet serialize_oversize_packet header_oversize_packet
      replicate_4)

subsection \<open>C4: the stored length of a set\<close>

text \<open>
  Claim C4, as amended. For every set \<open>s\<close> with entries \<open>e1..em\<close>, \<open>Len\<close> returns
  \<open>4 + \<Sum> Len(ei)\<close> and stores that number converted to \<open>uint16\<close>; the stored length is the
  number itself whenever it is at most 65535. A subsequent \<open>encode\<close> of the set into a
  slice of at least \<open>4 + \<Sum> Len(ei)\<close> bytes writes exactly that many bytes: the set id, the
  stored length, then the encoding of each entry in order; the bytes after them are left
  as they were.
\<close>

theorem set_Len_stored:
  "fst (IPFixSet_Len s) = IPFixSet_size s \<and>
   IPFixSet_size s = 4 + sum_list (map IPFixSetEntry_Len (SetEntries s)) \<and>
   SetLength (snd (IPFixSet_Len s)) = of_nat (IPFixSet_size s) \<and>
   (IPFixSet_size s \<le> 65535 \<longrightarrow> unat (SetLength (snd (IPFixSet_Len s))) = IPFixSet_size s) \<and>
   (IPFixSet_size s \<le> length b \<longrightarrow>
      IPFixSet_encode (snd (IPFixSet_Len s)) b =
        Inr (be16 (SetID s) @ be16 (of_nat (IPFixSet_size s)) @
             concat (map IPFixSetEntry_bytes (SetEntries s)) @ drop (IPFixSet_size s) b)) \<and>
   length (be16 (SetID s) @ be16 (of_nat (IPFixSet_size s)) @
           concat (map IPFixSetEntry_bytes (SetEntries s))) = IPFixSet_size s"
proof -
  have "IPFixSet_encode (refresh s) b =
      Inr (IPFixSet_bytes (refresh s) @ drop (IPFixSet_size s) b)"
    if "IPFixSet_size s \<le> length b"
    using that set_encode_ok [of "refresh s" b] by simp
  then have "IPFixSet_size s \<le> length b \<longrightarrow>
      IPFixSet_encode (snd (IPFixSet_Len s)) b =
        Inr (be16 (SetID s) @ be16 (of_nat (IPFixSet_size s)) @
             concat (map IPFixSetEntry_bytes (SetEntries s)) @ drop (IPFixSet_size s) b)"
    by (simp add: IPFixSet_Len_refresh bytes_refresh)
  moreover have "IPFixSet_size s \<le> 65535 \<longrightarrow>
      unat (SetLength (snd (IPFixSet_Len s))) = IPFixSet_size s"
    by (simp add: IPFixSet_Len_refresh SetLength_refresh unat_of_nat)
  moreover have "length (be16 (SetID s) @ be16 (of_nat (IPFixSet_size s)) @
      concat (map IPFixSetEntry_bytes (SetEntries s))) = IPFixSet_size s"
    by (simp add: length_concat_entry_bytes IPFixSet_size_def)
  moreover have "IPFixSet_size s = 4 + sum_list (map IPFixSetEntry_Len (SetEntries s))"
    by (simp add: IPFixSet_size_def)
  ultimately show ?thesis
    by (simp only: IPFixSet_Len_refresh SetLength_refresh fst_conv snd_conv simp_thms)
qed

text \<open>
  The theorem at the data set of scenario B, encoded into a slice of ten bytes \<open>FF\<close>:
  eight bytes are written, two are left.
\<close>

theorem set_Len_stored_witness:
  "IPFixSet_size data_set_B \<le> 65535 \<and>
   IPFixSet_size data_set_B \<le> length (replicate 10 (0xFF :: byte)) \<and>
   fst (IPFixSet_Len data_set_B) = 8 \<and>
   unat (SetLength (snd (IPFixSet_Len data_set_B))) = 8 \<and>
   IPFixSet_encode (snd (IPFixSet_Len data_set_B)) (replicate 10 0xFF) =
     Inr [0x01, 0x00, 0x00, 0x08, 0x01, 0x02, 0x03, 0x04, 0xFF, 0xFF]"
proof -
  have e: "SetID data_set_B = 256" "SetEntries data_set_B = [record_1]"
    "IPFixSetEntry_bytes record_1 = [1, 2, 3, 4]"
    by (simp_all add: data_set_B_def record_1_def)
  have d: "replicate 2 (0xFF :: byte) = [0xFF, 0xFF]"
    by (simp add: numeral_eq_Suc)
  have h: "be16 256 = [0x01, 0x00]" "be16 8 = [0x00, 0x08]"
    by (simp_all add: be16_def)
  from set_Len_stored [of data_set_B "replicate 10 0xFF"] show ?thesis
    by (simp add: size_data_set_B e d h)
qed

text \<open>
  Claim C4 as it was stated fails on \<open>oversize_set\<close>, the set with id 256 and one record
  of 65532 bytes: \<open>Len\<close> returns 65536 and stores 0, and \<open>encode\<close> then writes 65536
  bytes, not 0.
\<close>

theorem set_Len_stored_counterexample:
  "fst (IPFixSet_Len oversize_set) = 65536 \<and>
   unat (SetLength (snd (IPFixSet_Len oversize_set))) = 0 \<and>
   IPFixSet_encode (snd (IPFixSet_Len oversize_set)) (replicate 65536 0xFF) =
     Inr ([1, 0, 0, 0] @ replicate 65532 0)"
proof -
  have "IPFixSet_encode (refresh oversize_set) (replicate 65536 0xFF) =
      Inr (IPFixSet_bytes (refresh oversize_set) @
           drop (IPFixSet_size (refresh oversize_set)) (replicate 65536 0xFF))"
    by (rule set_encode_ok) (simp add: size_oversize_set)
  then show ?thesis
    by (simp add: IPFixSet_Len_refresh SetLength_refresh bytes_oversize_set size_oversize_set
        unat_of_nat)
qed

subsection \<open>C5: the byte length of a field\<close>

text \<open>
  Claim C5. For every field, \<open>Len\<close> is 4 when bit 15 of the type code is clear and 8
  when it is set. \<open>Len\<close> returns a number only, and the number depends on the type code
  alone: changing the name, the declared length, the enterprise number or the offset
  leaves it as it is.
\<close>

theorem field_Len_enterprise_bit:
  "IPFixField_Len f = (if bit (Type f) 15 then 8 else 4) \<and>
   IPFixField_Len (f\<lparr>Name := n, FieldLength := l, EnterpriseNumber := e, Offset := off\<rparr>) =
     IPFixField_Len f"
  by (simp add: IPFixField_Len_def IsEnterprise_bit)

subsection \<open>C6: the encoding of a field\<close>

text \<open>
  Claim C6. Into a slice with room for \<open>Len\<close> bytes, the \<open>encode\<close> of a field writes the
  type code in two bytes, then the declared length in two bytes, then, only if bit 15
  of the type code is set, the enterprise number in four bytes, each with the high byte
  first; the bytes after them are left as they were. The field with type \<open>0x8005\<close>,
  declared length 4 and enterprise number 12345 encodes, into any slice of eight bytes,
  to \<open>80 05 00 04 00 00 30 39\<close>.
\<close>

theorem field_encode_layout:
  assumes "IPFixField_Len f \<le> length b" and "length b8 = 8"
  shows "IPFixField_encode f b =
           Inr ([ucast (drop_bit 8 (Type f)), ucast (Type f),
                 ucast (drop_bit 8 (FieldLength f)), ucast (FieldLength f)] @
                (if bit (Type f) 15
                 then [ucast (drop_bit 24 (EnterpriseNumber f)),
                       ucast (drop_bit 16 (EnterpriseNumber f)),
                       ucast (drop_bit 8 (EnterpriseNumber f)), ucast (EnterpriseNumber f)]
                 else []) @
                drop (IPFixField_Len f) b) \<and>
         IPFixField_encode enterprise_field b8 =
           Inr [0x80, 0x05, 0x00, 0x04, 0x00, 0x00, 0x30, 0x39]"
proof -
  from assms(2) have "IPFixField_encode enterprise_field b8 =
      Inr (IPFixField_bytes enterprise_field @ drop 8 b8)"
    using field_encode_ok [of enterprise_field b8] by (simp add: Len_enterprise_field)
  with assms show ?thesis
    by (simp add: field_encode_ok bytes_enterprise_field)
      (simp add: IPFixField_bytes_def IsEnterprise_bit be16_def be32_def)
qed

text \<open>
  The theorem at a field without the enterprise bit, encoded into five bytes \<open>09\<close>, and
  at the enterprise field encoded into eight zero bytes.
\<close>

theorem field_encode_layout_witness:
  "IPFixField_Len plain_field \<le> length [9, 9, 9, 9, 9 :: byte] \<and>
   length (replicate 8 (0 :: byte)) = 8 \<and>
   IPFixField_encode plain_field [9, 9, 9, 9, 9] = Inr [0, 1, 0, 8, 9] \<and>
   IPFixField_encode enterprise_field (replicate 8 0) =
     Inr [0x80, 0x05, 0x00, 0x04, 0x00, 0x00, 0x30, 0x39]"
proof -
  have l: "IPFixField_Len plain_field \<le> length [9, 9, 9, 9, 9 :: byte]"
    by (simp add: IPFixField_Len_def IPFixField_IsEnterprise_def plain_field_def)
  have e: "length (replicate 8 (0 :: byte)) = 8" by simp
  have t: "Type plain_field = 1" "FieldLength plain_field = 8" "IPFixField_Len plain_field = 4"
    by (simp_all add: IPFixField_Len_def IPFixField_IsEnterprise_def plain_field_def)
  from field_encode_layout [OF l e] l show ?thesis
    by (simp add: t)
qed

subsection \<open>C7: the field count of a template\<close>

text \<open>
  Claim C7, as amended. A template built by \<open>NewIPFixTemplate\<close> from an id and a field
  list of \<open>n\<close> fields holds that list, and its field count is \<open>n\<close> converted to \<open>uint16\<close>
  (it is computed from the list and is no argument of the constructor): the count is
  \<open>n mod 65536\<close>, which is \<open>n\<close> whenever \<open>n\<close> is at most 65535. The \<open>Len\<close> of the template is
  \<open>4 + \<Sum> Len(fi)\<close>.
\<close>

theorem NewIPFixTemplate_count:
  "FieldCount (NewIPFixTemplate ident flds) = of_nat (length flds) \<and>
   unat (FieldCount (NewIPFixTemplate ident flds)) = length flds mod 65536 \<and>
   (length flds \<le> 65535 \<longrightarrow> unat (FieldCount (NewIPFixTemplate ident flds)) = length flds) \<and>
   Fields (NewIPFixTemplate ident flds) = flds \<and>
   IPFixTemplate_Len (NewIPFixTemplate ident flds) = 4 + sum_list (map IPFixField_Len flds)"
  by (simp add: NewIPFixTemplate_def unat_of_nat IPFixTemplate_Len_sum)

text \<open>The theorem at a template of two fields, one of them with an enterprise number.\<close>

theorem NewIPFixTemplate_count_witness:
  "length [plain_field, enterprise_field] \<le> 65535 \<and>
   unat (FieldCount (NewIPFixTemplate 256 [plain_field, enterprise_field])) = 2 \<and>
   IPFixTemplate_Len (NewIPFixTemplate 256 [plain_field, enterprise_field]) = 16"
  using NewIPFixTemplate_count [of 256 "[plain_field, enterprise_field]"]
  by (simp add: Len_enterprise_field)
    (simp add: IPFixField_Len_def IPFixField_IsEnterprise_def plain_field_def)

text \<open>
  Claim C7 as it was stated fails on the template built from 65536 fields: its field
  count is 0.
\<close>

theorem NewIPFixTemplate_count_counterexample:
  "unat (FieldCount (NewIPFixTemplate 256 (replicate 65536 plain_field))) = 0 \<and>
   length (Fields (NewIPFixTemplate 256 (replicate 65536 plain_field))) = 65536"
  by (simp add: NewIPFixTemplate_def unat_of_nat)

subsection \<open>C8: calling \<open>Len\<close> twice\<close>

text \<open>
  Claim C8. A second call of \<open>Len\<close> on a set, or on a packet, right after the first
  returns the same value and leaves the same set, or packet, with the same stored
  lengths.
\<close>

theorem Len_twice:
  "IPFixSet_Len (snd (IPFixSet_Len s)) = IPFixSet_Len s \<and>
   IPFix_Len (snd (IPFix_Len i)) = IPFix_Len i"
  by (simp add: IPFixSet_Len_refresh refresh_idem IPFix_Len_twice)

subsection \<open>C9: decoding\<close>

text \<open>
  Claim C9. For every byte sequence and every packet builder, \<open>decodeIPFix\<close> returns the
  error \<open>Not Implemented yet\<close> and leaves the packet builder as it was: nothing is parsed.
\<close>

theorem decodeIPFix_not_implemented:
  "decodeIPFix data p = (Some (Err ''Not Implemented yet''), p)"
  by (simp add: decodeIPFix_def)

subsection \<open>C10: the 16-bit stored values wrap\<close>

text \<open>
  Claim C10. \<open>Len\<close> of a set returns \<open>4 + \<Sum> Len(ei)\<close> in full and stores it converted to
  \<open>uint16\<close>, that is modulo 65536; \<open>Len\<close> of a packet returns the header length plus the
  sum of the set lengths in full and stores it converted to \<open>uint16\<close>; a version-9
  \<open>SerializeTo\<close> writes at \<open>[2:4]\<close> the total number of entries converted to \<open>uint16\<close>. Whenever
  one of these totals exceeds 65535, the stored or written value differs from it.
\<close>

theorem stored_lengths_wrap:
  assumes "Ver j = 9"
    and "PrependBytes (fst (IPFix_Len j)) = Inr data"
    and "length data = fst (IPFix_Len j)"
  shows "fst (IPFixSet_Len s) = 4 + sum_list (map IPFixSetEntry_Len (SetEntries s)) \<and>
         SetLength (snd (IPFixSet_Len s)) = of_nat (fst (IPFixSet_Len s)) \<and>
         unat (SetLength (snd (IPFixSet_Len s))) = fst (IPFixSet_Len s) mod 65536 \<and>
         (65535 < fst (IPFixSet_Len s) \<longrightarrow>
            unat (SetLength (snd (IPFixSet_Len s))) \<noteq> fst (IPFixSet_Len s)) \<and>
         fst (IPFix_Len i) =
           (if Ver i = 9 then 20 else 16) +
           sum_list (map (\<lambda>s. fst (IPFixSet_Len s)) (Sets i)) \<and>
         PktLength (snd (IPFix_Len i)) = of_nat (fst (IPFix_Len i)) \<and>
         unat (PktLength (snd (IPFix_Len i))) = fst (IPFix_Len i) mod 65536 \<and>
         (65535 < fst (IPFix_Len i) \<longrightarrow>
            unat (PktLength (snd (IPFix_Len i))) \<noteq> fst (IPFix_Len i)) \<and>
         (\<exists>out c. IPFix_SerializeTo j PrependBytes = Inr (snd (IPFix_Len j), out) \<and>
            take 2 (drop 2 out) = be16 c \<and>
            c = of_nat (sum_list (map (\<lambda>s. length (SetEntries s)) (Sets j))) \<and>
            unat c = sum_list (map (\<lambda>s. length (SetEntries s)) (Sets j)) mod 65536 \<and>
            (65535 < sum_list (map (\<lambda>s. length (SetEntries s)) (Sets j)) \<longrightarrow>
               unat c \<noteq> sum_list (map (\<lambda>s. length (SetEntries s)) (Sets j))))"
proof -
  have set_part: "fst (IPFixSet_Len s) = 4 + sum_list (map IPFixSetEntry_Len (SetEntries s))"
    "SetLength (snd (IPFixSet_Len s)) = of_nat (fst (IPFixSet_Len s))"
    by (simp_all add: IPFixSet_Len_refresh SetLength_refresh IPFixSet_size_def)
  have pkt_part: "fst (IPFix_Len i) =
      (if Ver i = 9 then 20 else 16) + sum_list (map (\<lambda>s. fst (IPFixSet_Len s)) (Sets i))"
    by (simp add: fst_IPFix_Len header_len_def sum_fst_IPFixSet_Len)
  from assms serialize_runs_v9 [of j PrependBytes data]
  obtain out where out: "IPFix_SerializeTo j PrependBytes = Inr (snd (IPFix_Len j), out)"
    "take 20 out = header_v9 (snd (IPFix_Len j))"
    by blast
  from out(2) have "take 2 (drop 2 out) =
      be16 (of_nat (sum_list (map (\<lambda>s. length (SetEntries s)) (Sets j))))"
    by (simp add: take2_drop2_header_v9 total_entries_after_Len) (simp add: total_entries_def)
  with out(1) have v9_part: "\<exists>out c. IPFix_SerializeTo j PrependBytes = Inr (snd (IPFix_Len j), out) \<and>
      take 2 (drop 2 out) = be16 c \<and>
      c = of_nat (sum_list (map (\<lambda>s. length (SetEntries s)) (Sets j))) \<and>
      unat c = sum_list (map (\<lambda>s. length (SetEntries s)) (Sets j)) mod 65536 \<and>
      (65535 < sum_list (map (\<lambda>s. length (SetEntries s)) (Sets j)) \<longrightarrow>
         unat c \<noteq> sum_list (map (\<lambda>s. length (SetEntries s)) (Sets j)))"
    by (simp add: unat_of_nat mod_uint16_neq)
  have "unat (SetLength (snd (IPFixSet_Len s))) = fst (IPFixSet_Len s) mod 65536"
    "65535 < fst (IPFixSet_Len s) \<longrightarrow>
       unat (SetLength (snd (IPFixSet_Len s))) \<noteq> fst (IPFixSet_Len s)"
    "unat (PktLength (snd (IPFix_Len i))) = fst (IPFix_Len i) mod 65536"
    "65535 < fst (IPFix_Len i) \<longrightarrow>
       unat (PktLength (snd (IPFix_Len i))) \<noteq> fst (IPFix_Len i)"
    by (simp_all add: set_part(2) PktLength_after_Len unat_of_nat mod_uint16_neq)
  with set_part pkt_part v9_part PktLength_after_Len [of i] show ?thesis
    by (intro conjI)
qed

text \<open>
  The theorem at the set of byte length 65536, at the version-10 packet of byte length
  65556 that holds it, and at the version-9 packet of 65536 entries.
\<close>

theorem stored_lengths_wrap_witness:
  "Ver crowded_packet = 9 \<and>
   reserve_fill 0xFF (fst (IPFix_Len crowded_packet)) = Inr (replicate 24 0xFF) \<and>
   length (replicate 24 (0xFF :: byte)) = fst (IPFix_Len crowded_packet) \<and>
   65535 < fst (IPFixSet_Len oversize_set) \<and>
   unat (SetLength (snd (IPFixSet_Len oversize_set))) \<noteq> fst (IPFixSet_Len oversize_set) \<and>
   65535 < fst (IPFix_Len oversize_packet) \<and>
   unat (PktLength (snd (IPFix_Len oversize_packet))) \<noteq> fst (IPFix_Len oversize_packet) \<and>
   65535 < sum_list (map (\<lambda>s. length (SetEntries s)) (Sets crowded_packet)) \<and>
   (\<exists>out c. IPFix_SerializeTo crowded_packet (reserve_fill 0xFF) =
        Inr (snd (IPFix_Len crowded_packet), out) \<and>
      take 2 (drop 2 out) = be16 c \<and>
      unat c \<noteq> sum_list (map (\<lambda>s. length (SetEntries s)) (Sets crowded_packet)))"
proof -
  have v: "Ver crowded_packet = 9"
    by (simp add: crowded_packet_def)
  have r: "reserve_fill 0xFF (fst (IPFix_Len crowded_packet)) = Inr (replicate 24 0xFF)"
    by (simp add: reserve_fill_def Len_crowded_packet)
  have l: "length (replicate 24 (0xFF :: byte)) = fst (IPFix_Len crowded_packet)"
    by (simp add: Len_crowded_packet)
  have s: "65535 < fst (IPFixSet_Len oversize_set)"
    by (simp add: fst_IPFixSet_Len size_oversize_set)
  have p: "65535 < fst (IPFix_Len oversize_packet)"
    by (simp add: Len_oversize_packet)
  have c: "65535 < sum_list (map (\<lambda>s. length (SetEntries s)) (Sets crowded_packet))"
    using total_entries_crowded_packet by (simp add: total_entries_def)
  from stored_lengths_wrap [of crowded_packet "reserve_fill 0xFF" "replicate 24 0xFF"
      oversize_set oversize_packet] v r l s p c
  show ?thesis
    by blast
qed

end
